theory Spec2Isabelle
  imports Main "HOL-Library.Word"
begin

unbundle bit_operations_syntax

section \<open>Buffers and the platform primitives the codec calls\<close>

text \<open>
  A Node \<open>Buffer\<close> is a list of bytes. Lengths and offsets are natural numbers; the JavaScript
  numbers that the code passes around as values (command byte, nonce) are integers, so that the
  range checks of \<open>writeUInt8\<close>, \<open>writeUInt16BE\<close> and \<open>writeUInt32BE\<close> are branches of the model.
\<close>

type_synonym byte = "8 word"
type_synonym buffer = "byte list"

datatype error =
    INVALID_NONCE
  | UNKNOWN_COMMAND
  | MALFORMED_FRAME
  | HASH_VALIDATION_FAILURE
  | INVALID_BASE64
  | CONNECTION_TIMEOUT
  | UNEXPECTED_DISCONNECTION
  | PayloadSizeExceedsMaximum
  | RangeError
  | TypeError
  | NotConnected
  | HelloRequired
  | TransportError

text \<open>
  The first seven constructors are the values of \<open>PROTOCOL_ERRORS\<close>.
  \<open>PayloadSizeExceedsMaximum\<close> is the plain \<open>Error\<close> thrown by \<open>encodeFrame\<close>, \<open>RangeError\<close> is
  Node's \<open>ERR_OUT_OF_RANGE\<close> of the \<open>writeUInt*\<close> family, \<open>TypeError\<close> is a property access on
  \<open>null\<close>, \<open>NotConnected\<close> and \<open>HelloRequired\<close> are the two plain errors of the client
  (``Not connected to server'', ``HELLO command must be sent before DUMP''), and
  \<open>TransportError\<close> stands for any error object the socket reports.
\<close>

definition HASH_LENGTH :: nat where "HASH_LENGTH = 32"
definition NONCE_LENGTH :: nat where "NONCE_LENGTH = 4"
definition CMD_LENGTH :: nat where "CMD_LENGTH = 1"
definition LENGTH_PREFIX_SIZE :: nat where "LENGTH_PREFIX_SIZE = 2"
definition MAX_PAYLOAD_SIZE :: nat where "MAX_PAYLOAD_SIZE = 65535"

definition HELLO_code :: int where "HELLO_code = 0x01"
definition DUMP_code :: int where "DUMP_code = 0x02"
definition STOP_CMD_code :: int where "STOP_CMD_code = 0x03"
definition HELLO_ACK :: int where "HELLO_ACK = 0x81"
definition DUMP_FAILED :: int where "DUMP_FAILED = 0x82"
definition DUMP_OK :: int where "DUMP_OK = 0x83"
definition STOP_OK :: int where "STOP_OK = 0x84"

subsection \<open>Integer reads and writes\<close>

definition writeUInt8 :: "int \<Rightarrow> error + buffer" where
  "writeUInt8 v = (if 0 \<le> v \<and> v \<le> 255 then Inr [word_of_int v] else Inl RangeError)"

definition writeUInt16BE :: "int \<Rightarrow> error + buffer" where
  "writeUInt16BE v =
     (if 0 \<le> v \<and> v \<le> 65535 then Inr [word_of_int (v div 256), word_of_int v]
      else Inl RangeError)"

definition writeUInt32BE :: "int \<Rightarrow> error + buffer" where
  "writeUInt32BE v =
     (if 0 \<le> v \<and> v \<le> 4294967295
      then Inr [word_of_int (v div 16777216), word_of_int (v div 65536),
                word_of_int (v div 256), word_of_int v]
      else Inl RangeError)"

definition readUInt8 :: "buffer \<Rightarrow> nat \<Rightarrow> int" where
  "readUInt8 b off = uint (b ! off)"

definition readUInt16BE :: "buffer \<Rightarrow> nat \<Rightarrow> nat" where
  "readUInt16BE b off = unat (b ! off) * 256 + unat (b ! (off + 1))"

definition readUInt32BE :: "buffer \<Rightarrow> nat \<Rightarrow> int" where
  "readUInt32BE b off =
     uint (b ! off) * 16777216 + uint (b ! (off + 1)) * 65536
       + uint (b ! (off + 2)) * 256 + uint (b ! (off + 3))"

definition subarray :: "buffer \<Rightarrow> nat \<Rightarrow> nat \<Rightarrow> buffer" where
  "subarray b start end = take (end - start) (drop start b)"

subsection \<open>SHA-256 (\<open>crypto.createHash('sha256')\<close>)\<close>

definition rotr :: "nat \<Rightarrow> 32 word \<Rightarrow> 32 word" where
  "rotr n x = word_rotr n x"

definition Ch :: "32 word \<Rightarrow> 32 word \<Rightarrow> 32 word \<Rightarrow> 32 word" where
  "Ch x y z = (x AND y) XOR (NOT x AND z)"

definition Maj :: "32 word \<Rightarrow> 32 word \<Rightarrow> 32 word \<Rightarrow> 32 word" where
  "Maj x y z = (x AND y) XOR (x AND z) XOR (y AND z)"

definition bsig0 :: "32 word \<Rightarrow> 32 word" where
  "bsig0 x = rotr 2 x XOR rotr 13 x XOR rotr 22 x"

definition bsig1 :: "32 word \<Rightarrow> 32 word" where
  "bsig1 x = rotr 6 x XOR rotr 11 x XOR rotr 25 x"

definition ssig0 :: "32 word \<Rightarrow> 32 word" where
  "ssig0 x = rotr 7 x XOR rotr 18 x XOR drop_bit 3 x"

definition ssig1 :: "32 word \<Rightarrow> 32 word" where
  "ssig1 x = rotr 17 x XOR rotr 19 x XOR drop_bit 10 x"

definition sha256_K :: "32 word list" where
  "sha256_K = concat
    [[0x428a2f98, 0x71374491, 0xb5c0fbcf, 0xe9b5dba5],
     [0x3956c25b, 0x59f111f1, 0x923f82a4, 0xab1c5ed5],
     [0xd807aa98, 0x12835b01, 0x243185be, 0x550c7dc3],
     [0x72be5d74, 0x80deb1fe, 0x9bdc06a7, 0xc19bf174],
     [0xe49b69c1, 0xefbe4786, 0x0fc19dc6, 0x240ca1cc],
     [0x2de92c6f, 0x4a7484aa, 0x5cb0a9dc, 0x76f988da],
     [0x983e5152, 0xa831c66d, 0xb00327c8, 0xbf597fc7],
     [0xc6e00bf3, 0xd5a79147, 0x06ca6351, 0x14292967],
     [0x27b70a85, 0x2e1b2138, 0x4d2c6dfc, 0x53380d13],
     [0x650a7354, 0x766a0abb, 0x81c2c92e, 0x92722c85],
     [0xa2bfe8a1, 0xa81a664b, 0xc24b8b70, 0xc76c51a3],
     [0xd192e819, 0xd6990624, 0xf40e3585, 0x106aa070],
     [0x19a4c116, 0x1e376c08, 0x2748774c, 0x34b0bcb5],
     [0x391c0cb3, 0x4ed8aa4a, 0x5b9cca4f, 0x682e6ff3],
     [0x748f82ee, 0x78a5636f, 0x84c87814, 0x8cc70208],
     [0x90befffa, 0xa4506ceb, 0xbef9a3f7, 0xc67178f2]]"

definition sha256_init :: "32 word list" where
  "sha256_init =
    [0x6a09e667, 0xbb67ae85, 0x3c6ef372, 0xa54ff53a, 0x510e527f, 0x9b05688c, 0x1f83d9ab, 0x5be0cd19]"

definition be32_of_bytes :: "buffer \<Rightarrow> 32 word" where
  "be32_of_bytes b =
     push_bit 24 (ucast (b ! 0)) OR push_bit 16 (ucast (b ! 1))
       OR push_bit 8 (ucast (b ! 2)) OR ucast (b ! 3)"

definition bytes_of_be32 :: "32 word \<Rightarrow> buffer" where
  "bytes_of_be32 w = [ucast (drop_bit 24 w), ucast (drop_bit 16 w), ucast (drop_bit 8 w), ucast w]"

definition bytes_of_be64 :: "64 word \<Rightarrow> buffer" where
  "bytes_of_be64 w =
     [ucast (drop_bit 56 w), ucast (drop_bit 48 w), ucast (drop_bit 40 w), ucast (drop_bit 32 w),
      ucast (drop_bit 24 w), ucast (drop_bit 16 w), ucast (drop_bit 8 w), ucast w]"

definition sha256_pad :: "buffer \<Rightarrow> buffer" where
  "sha256_pad m =
     m @ [0x80] @ replicate ((119 - length m mod 64) mod 64) 0
       @ bytes_of_be64 (word_of_nat (8 * length m))"

fun sha256_words :: "nat \<Rightarrow> buffer \<Rightarrow> 32 word list" where
  "sha256_words 0 b = []"
| "sha256_words (Suc n) b = be32_of_bytes (take 4 b) # sha256_words n (drop 4 b)"

fun sha256_schedule :: "nat \<Rightarrow> 32 word list \<Rightarrow> 32 word list" where
  "sha256_schedule 0 w = w"
| "sha256_schedule (Suc n) w =
     (let t = length w
      in sha256_schedule n
           (w @ [ssig1 (w ! (t - 2)) + w ! (t - 7) + ssig0 (w ! (t - 15)) + w ! (t - 16)]))"

fun sha256_round :: "32 word \<times> 32 word \<Rightarrow> 32 word list \<Rightarrow> 32 word list" where
  "sha256_round (k, w) [a, b, c, d, e, f, g, h] =
     (let t1 = h + bsig1 e + Ch e f g + k + w;
          t2 = bsig0 a + Maj a b c
      in [t1 + t2, a, b, c, d + t1, e, f, g])"
| "sha256_round (k, w) s = s"

definition sha256_block :: "32 word list \<Rightarrow> buffer \<Rightarrow> 32 word list" where
  "sha256_block h blk =
     map2 (+) h (fold sha256_round (zip sha256_K (sha256_schedule 48 (sha256_words 16 blk))) h)"

function sha256_blocks :: "32 word list \<Rightarrow> buffer \<Rightarrow> 32 word list" where
  "sha256_blocks h m =
     (if length m < 64 then h else sha256_blocks (sha256_block h (take 64 m)) (drop 64 m))"
  by pat_completeness auto
termination
  by (relation "measure (\<lambda>(h, m). length m)") auto

declare sha256_blocks.simps [simp del]

definition sha256 :: "buffer \<Rightarrow> buffer" where
  "sha256 m = concat (map bytes_of_be32 (sha256_blocks sha256_init (sha256_pad m)))"

subsection \<open>Base64 (\<open>buf.toString('base64')\<close> and \<open>Buffer.from(str, 'base64')\<close>)\<close>

text \<open>
  The encoder is the standard one, with \<open>=\<close> padding. The decoder is Node's lenient one: it stops
  at the first \<open>=\<close>, skips every character outside the two alphabets it accepts (the standard
  one and the URL-safe one), turns each full group of four characters into three bytes and a
  final group of three (two) characters into two (one) bytes; a single left-over character gives
  nothing. It never throws.
\<close>

definition b64_char :: "nat \<Rightarrow> byte" where
  "b64_char n =
     of_nat (if n < 26 then 65 + n else if n < 52 then 71 + n else if n < 62 then n - 4
             else if n = 62 then 43 else 47)"

definition unbase64 :: "byte \<Rightarrow> nat option" where
  "unbase64 c =
     (let k = unat c
      in if 65 \<le> k \<and> k \<le> 90 then Some (k - 65)
         else if 97 \<le> k \<and> k \<le> 122 then Some (k - 71)
         else if 48 \<le> k \<and> k \<le> 57 then Some (k + 4)
         else if k = 43 \<or> k = 45 then Some 62
         else if k = 47 \<or> k = 95 then Some 63
         else None)"

fun base64_encode :: "buffer \<Rightarrow> buffer" where
  "base64_encode (a # b # c # rest) =
     [b64_char (unat a div 4), b64_char ((unat a mod 4) * 16 + unat b div 16),
      b64_char ((unat b mod 16) * 4 + unat c div 64), b64_char (unat c mod 64)]
       @ base64_encode rest"
| "base64_encode [a, b] =
     [b64_char (unat a div 4), b64_char ((unat a mod 4) * 16 + unat b div 16),
      b64_char ((unat b mod 16) * 4), 61]"
| "base64_encode [a] = [b64_char (unat a div 4), b64_char ((unat a mod 4) * 16), 61, 61]"
| "base64_encode [] = []"

text \<open>The six-bit groups of a byte string, before they are turned into characters.\<close>

fun sextets_of :: "buffer \<Rightarrow> nat list" where
  "sextets_of (a # b # c # rest) =
     [unat a div 4, (unat a mod 4) * 16 + unat b div 16,
      (unat b mod 16) * 4 + unat c div 64, unat c mod 64] @ sextets_of rest"
| "sextets_of [a, b] = [unat a div 4, (unat a mod 4) * 16 + unat b div 16, (unat b mod 16) * 4]"
| "sextets_of [a] = [unat a div 4, (unat a mod 4) * 16]"
| "sextets_of [] = []"

definition base64_sextets :: "buffer \<Rightarrow> nat list" where
  "base64_sextets s = List.map_filter unbase64 (takeWhile (\<lambda>c. c \<noteq> 61) s)"

fun base64_groups :: "nat list \<Rightarrow> buffer" where
  "base64_groups (s1 # s2 # s3 # s4 # rest) =
     [of_nat (s1 * 4 + s2 div 16), of_nat ((s2 mod 16) * 16 + s3 div 4),
      of_nat ((s3 mod 4) * 64 + s4)] @ base64_groups rest"
| "base64_groups [s1, s2, s3] =
     [of_nat (s1 * 4 + s2 div 16), of_nat ((s2 mod 16) * 16 + s3 div 4)]"
| "base64_groups [s1, s2] = [of_nat (s1 * 4 + s2 div 16)]"
| "base64_groups [s1] = []"
| "base64_groups [] = []"

definition base64_decode :: "buffer \<Rightarrow> buffer" where
  "base64_decode s = base64_groups (base64_sextets s)"

text \<open>
  \<open>buf.toString('ascii')\<close> clears the high bit of every byte; \<open>Buffer.from(str, 'ascii')\<close>
  stores the character codes. \<open>Buffer.from(str, 'base64')\<close> is wrapped in a \<open>try\<close> by the
  caller; the result type keeps that branch, although the decoder always returns.
\<close>

definition toString_ascii :: "buffer \<Rightarrow> buffer" where
  "toString_ascii b = map (\<lambda>x. x AND 0x7F) b"

definition Buffer_from_base64 :: "buffer \<Rightarrow> buffer option" where
  "Buffer_from_base64 s = Some (base64_decode s)"

section \<open>The frame codec (\<open>src/protocol/frame.js\<close>)\<close>

text \<open>
  \<open>decodeFrame\<close> also returns \<open>payloadString\<close>, the UTF-8 text view of the payload; it is a
  function of \<open>payload\<close> alone and is left out of the record.
\<close>

record frame =
  cmd :: int
  nonce :: int
  payload :: buffer
  hash :: buffer
  isValid :: bool

definition calculateHash :: "int \<Rightarrow> int \<Rightarrow> buffer \<Rightarrow> error + buffer" where
  "calculateHash c n p =
     (case writeUInt8 c of
        Inl e \<Rightarrow> Inl e
      | Inr cb \<Rightarrow>
          (case writeUInt32BE n of
             Inl e \<Rightarrow> Inl e
           | Inr nb \<Rightarrow> Inr (sha256 (cb @ nb @ p))))"

text \<open>
  What the specification calls \<open>command \<parallel> nonce(BE32) \<parallel> payload\<close>, written out from its
  words; \<open>calculateHash_eq\<close> below compares it with the bytes \<open>calculateHash\<close> builds.
\<close>

definition spec_hash_input :: "int \<Rightarrow> int \<Rightarrow> buffer \<Rightarrow> buffer" where
  "spec_hash_input c n p =
     [word_of_int c, word_of_int (n div 16777216), word_of_int (n div 65536),
      word_of_int (n div 256), word_of_int n] @ p"

definition encodeFrame :: "int \<Rightarrow> int \<Rightarrow> buffer \<Rightarrow> error + buffer" where
  "encodeFrame c n payloadBuffer =
     (if length payloadBuffer > MAX_PAYLOAD_SIZE then Inl PayloadSizeExceedsMaximum
      else case calculateHash c n payloadBuffer of
        Inl e \<Rightarrow> Inl e
      | Inr h \<Rightarrow>
          (case writeUInt8 c of
             Inl e \<Rightarrow> Inl e
           | Inr cb \<Rightarrow>
               (case writeUInt32BE n of
                  Inl e \<Rightarrow> Inl e
                | Inr nb \<Rightarrow>
                    (let binaryFrame = cb @ nb @ payloadBuffer @ h;
                         base64Buffer = base64_encode binaryFrame
                     in case writeUInt16BE (int (length base64Buffer)) of
                          Inl e \<Rightarrow> Inl e
                        | Inr lp \<Rightarrow> Inr (lp @ base64Buffer)))))"

definition minFrameSize :: nat where
  "minFrameSize = CMD_LENGTH + NONCE_LENGTH + HASH_LENGTH"

text \<open>
  The outer \<open>catch\<close> of \<open>decodeFrame\<close> rethrows an error whose message is one of
  \<open>PROTOCOL_ERRORS\<close> and turns every other error into \<open>MALFORMED_FRAME\<close>; the only other error
  the body can meet is a range error inside \<open>calculateHash\<close>.
\<close>

definition decodeFrame :: "buffer \<Rightarrow> error + frame" where
  "decodeFrame frameData =
     (if length frameData < LENGTH_PREFIX_SIZE then Inl MALFORMED_FRAME
      else
        let dataLength = readUInt16BE frameData 0
        in if length frameData < LENGTH_PREFIX_SIZE + dataLength then Inl MALFORMED_FRAME
           else
             let base64Data = subarray frameData LENGTH_PREFIX_SIZE (LENGTH_PREFIX_SIZE + dataLength)
             in case Buffer_from_base64 (toString_ascii base64Data) of
                  None \<Rightarrow> Inl INVALID_BASE64
                | Some binaryFrame \<Rightarrow>
                    if length binaryFrame < minFrameSize then Inl MALFORMED_FRAME
                    else
                      let c = readUInt8 binaryFrame 0;
                          n = readUInt32BE binaryFrame CMD_LENGTH;
                          payloadLength = length binaryFrame - minFrameSize;
                          p = (if payloadLength > 0
                               then subarray binaryFrame (CMD_LENGTH + NONCE_LENGTH)
                                      (CMD_LENGTH + NONCE_LENGTH + payloadLength)
                               else []);
                          receivedHash = drop (CMD_LENGTH + NONCE_LENGTH + payloadLength) binaryFrame
                      in case calculateHash c n p of
                           Inl e \<Rightarrow> Inl MALFORMED_FRAME
                         | Inr calculatedHash \<Rightarrow>
                             if receivedHash \<noteq> calculatedHash then Inl HASH_VALIDATION_FAILURE
                             else Inr \<lparr>cmd = c, nonce = n, payload = p, hash = receivedHash,
                                       isValid = True\<rparr>)"

text \<open>The binary frame that \<open>decodeFrame\<close> obtains from the Base64 region of a wire buffer.\<close>

definition binaryFrame_of :: "buffer \<Rightarrow> buffer" where
  "binaryFrame_of frameData =
     base64_decode (toString_ascii
       (subarray frameData LENGTH_PREFIX_SIZE (LENGTH_PREFIX_SIZE + readUInt16BE frameData 0)))"

definition getExpectedFrameLength :: "buffer \<Rightarrow> nat option" where
  "getExpectedFrameLength d =
     (if length d < LENGTH_PREFIX_SIZE then None
      else Some (LENGTH_PREFIX_SIZE + readUInt16BE d 0))"

subsection \<open>Concrete frames\<close>

text \<open>
  \<open>HELLO_wire\<close> is \<open>encodeFrame(COMMANDS.HELLO, 0, '')\<close> byte for byte and \<open>HELLO_digest\<close> the
  SHA-256 digest inside it; \<open>HELLO_wire_corrupted\<close> is the same frame with the last byte of the
  digest flipped and the envelope rebuilt, as \<open>tests/unit/protocol/frame.test.js\<close> does;
  \<open>INVALID_BASE64_fixture\<close> is \<open>MALFORMED_DATA.INVALID_BASE64\<close> of
  \<open>tests/fixtures/protocol-fixtures.js\<close>, the characters \<open>!!!@#$%^&*(\<close> behind their length.
\<close>

definition HELLO_wire :: buffer where
  "HELLO_wire =
     [0, 52, 65, 81, 65, 65, 65, 65, 67, 86, 101, 52, 105, 120, 74, 122, 68, 109, 82, 117, 68,
      122, 80, 84, 89, 89, 116, 51, 51, 54, 86, 53, 54, 67, 77, 101, 80, 70, 110, 72, 69, 69,
      118, 110, 70, 108, 89, 82, 121, 65, 74, 119, 61, 61]"

definition HELLO_wire_corrupted :: buffer where
  "HELLO_wire_corrupted =
     [0, 52, 65, 81, 65, 65, 65, 65, 67, 86, 101, 52, 105, 120, 74, 122, 68, 109, 82, 117, 68,
      122, 80, 84, 89, 89, 116, 51, 51, 54, 86, 53, 54, 67, 77, 101, 80, 70, 110, 72, 69, 69,
      118, 110, 70, 108, 89, 82, 121, 65, 50, 65, 61, 61]"

definition HELLO_digest :: buffer where
  "HELLO_digest =
     [149, 123, 136, 177, 39, 48, 230, 70, 224, 243, 61, 54, 24, 183, 125, 250, 87, 158, 130,
      49, 227, 197, 156, 113, 4, 190, 113, 101, 97, 28, 128, 39]"

definition INVALID_BASE64_fixture :: buffer where
  "INVALID_BASE64_fixture = [0, 11, 33, 33, 33, 64, 35, 36, 37, 94, 38, 42, 40]"

section \<open>The protocol client (\<open>src/protocol/client.js\<close>)\<close>

text \<open>
  The client object is a record of its fields. Three more fields hold what the object owns
  through the event emitter and its promises: \<open>exchanges\<close> are the listener triples that
  \<open>_sendFrameAndWaitForResponse\<close> has registered and not yet removed, one per pending promise;
  \<open>errorListener\<close> says whether anybody else listens to \<open>'error'\<close> (an emitter without such a
  listener throws the error instead); \<open>nextExchange\<close> numbers the promises. What the client
  does to the outside is logged: \<open>written\<close> are the buffers passed to \<open>socket.write\<close>,
  \<open>emitted\<close> the events, \<open>settled\<close> the promises resolved or rejected. Settling a promise a
  second time does nothing, as in JavaScript. Other listeners are taken not to call back into the
  client while an event is delivered. Timestamps are left out of the events.

  \<open>sentNonce\<close> of an exchange is the nonce of the frame handed to
  \<open>_sendFrameAndWaitForResponse\<close>; no code reads it.
\<close>

datatype command_name = HELLO | DUMP | STOP_CMD

record pending_exchange =
  exchangeId :: nat
  sentNonce :: int
  expectedCodes :: "int list"

datatype settlement = Resolved frame | Rejected error

datatype event =
    Ev_connected
  | Ev_disconnected
  | Ev_error error
  | Ev_frameTransmitted_request command_name int
  | Ev_frameTransmitted_response string int buffer
  | Ev_frameReceived frame

record client =
  socket :: bool
  isConnected :: bool
  currentNonce :: int
  lastCommand :: "command_name option"
  dumpCounter :: nat
  incomingBuffer :: buffer
  connectionTimer :: bool
  exchanges :: "pending_exchange list"
  errorListener :: bool
  nextExchange :: nat
  written :: "buffer list"
  emitted :: "event list"
  settled :: "(nat \<times> settlement) list"

definition new_client :: "bool \<Rightarrow> client" where
  "new_client listening =
     \<lparr>socket = False, isConnected = False, currentNonce = 0, lastCommand = None,
      dumpCounter = 0, incomingBuffer = [], connectionTimer = False, exchanges = [],
      errorListener = listening, nextExchange = 0, written = [], emitted = [], settled = []\<rparr>"

definition RESPONSE_NAMES :: "int \<Rightarrow> string" where
  "RESPONSE_NAMES c =
     (if c = HELLO_ACK then ''HELLO_ACK'' else if c = DUMP_FAILED then ''DUMP_FAILED''
      else if c = DUMP_OK then ''DUMP_OK'' else if c = STOP_OK then ''STOP_OK''
      else ''UNKNOWN'')"

subsection \<open>Events and promises\<close>

fun add_settlements ::
    "(nat \<times> settlement) list \<Rightarrow> (nat \<times> settlement) list \<Rightarrow> (nat \<times> settlement) list" where
  "add_settlements log [] = log"
| "add_settlements log ((i, s) # rest) =
     add_settlements (if i \<in> set (map fst log) then log else log @ [(i, s)]) rest"

definition settle_all :: "settlement \<Rightarrow> pending_exchange list \<Rightarrow> client \<Rightarrow> client" where
  "settle_all s ps c =
     c\<lparr>settled := add_settlements (settled c) (map (\<lambda>p. (exchangeId p, s)) ps)\<rparr>"

definition emit :: "event \<Rightarrow> client \<Rightarrow> client" where
  "emit ev c = c\<lparr>emitted := emitted c @ [ev]\<rparr>"

definition reject_all :: "error \<Rightarrow> client \<Rightarrow> client" where
  "reject_all e c = settle_all (Rejected e) (exchanges c) (c\<lparr>exchanges := []\<rparr>)"

definition emit_error :: "error \<Rightarrow> client \<Rightarrow> client \<times> error option" where
  "emit_error e c =
     (if exchanges c = [] \<and> \<not> errorListener c then (c, Some e)
      else (reject_all e (emit (Ev_error e) c), None))"

definition emit_disconnected :: "client \<Rightarrow> client" where
  "emit_disconnected c = reject_all UNEXPECTED_DISCONNECTION (emit Ev_disconnected c)"

definition emit_frameReceived :: "frame \<Rightarrow> client \<Rightarrow> client" where
  "emit_frameReceived f c =
     settle_all (Resolved f) (filter (\<lambda>p. cmd f \<in> set (expectedCodes p)) (exchanges c))
       (emit (Ev_frameReceived f)
          (c\<lparr>exchanges := filter (\<lambda>p. cmd f \<notin> set (expectedCodes p)) (exchanges c)\<rparr>))"

subsection \<open>Connection management\<close>

text \<open>
  \<open>connect()\<close> is split at its callbacks: the call itself, the socket's connect callback, its
  \<open>'close'\<close> and \<open>'error'\<close> events, and the connection timer. The promise that \<open>connect()\<close>
  returns is not logged.
\<close>

definition connect :: "client \<Rightarrow> client" where
  "connect c = c\<lparr>socket := True, connectionTimer := True\<rparr>"

definition on_connect :: "client \<Rightarrow> client" where
  "on_connect c =
     emit Ev_connected
       (c\<lparr>connectionTimer := False, isConnected := True, currentNonce := 0,
          lastCommand := None, dumpCounter := 0, incomingBuffer := []\<rparr>)"

definition on_close :: "client \<Rightarrow> client" where
  "on_close c = emit_disconnected (c\<lparr>isConnected := False, connectionTimer := False\<rparr>)"

definition on_socket_error :: "error \<Rightarrow> client \<Rightarrow> client \<times> error option" where
  "on_socket_error e c = emit_error e (c\<lparr>isConnected := False, connectionTimer := False\<rparr>)"

definition on_timeout :: "client \<Rightarrow> client \<times> error option" where
  "on_timeout c =
     (if \<not> socket c then (c, Some TypeError)
      else emit_error CONNECTION_TIMEOUT (c\<lparr>connectionTimer := False\<rparr>))"

definition disconnect :: "client \<Rightarrow> client" where
  "disconnect c = c\<lparr>socket := False, isConnected := False, connectionTimer := False\<rparr>"

subsection \<open>Commands\<close>

text \<open>
  A command returns the new client and either the error with which the \<open>async\<close> function
  rejects at once, or the number of the promise it leaves pending. When \<open>this.socket\<close> is
  \<open>null\<close> the promise executor throws after the listeners are registered: the promise is rejected
  with a \<open>TypeError\<close>, nothing is written and the nonce stays.
\<close>

definition sendFrameAndWaitForResponse ::
    "buffer \<Rightarrow> int \<Rightarrow> int list \<Rightarrow> client \<Rightarrow> client \<times> (error + nat)" where
  "sendFrameAndWaitForResponse frm n expectedResponseCodes c =
     (let i = nextExchange c;
          x = \<lparr>exchangeId = i, sentNonce = n, expectedCodes = expectedResponseCodes\<rparr>;
          c1 = c\<lparr>exchanges := exchanges c @ [x], nextExchange := i + 1\<rparr>
      in if \<not> socket c1 then (settle_all (Rejected TypeError) [x] c1, Inr i)
         else (c1\<lparr>written := written c1 @ [frm], currentNonce := currentNonce c1 + 2\<rparr>, Inr i))"

definition sendHello :: "client \<Rightarrow> client \<times> (error + nat)" where
  "sendHello c =
     (if \<not> isConnected c then (c, Inl NotConnected)
      else case encodeFrame HELLO_code (currentNonce c) [] of
        Inl e \<Rightarrow> (c, Inl e)
      | Inr frm \<Rightarrow>
          sendFrameAndWaitForResponse frm (currentNonce c) [HELLO_ACK]
            (emit (Ev_frameTransmitted_request HELLO (currentNonce c))
               (c\<lparr>lastCommand := Some HELLO\<rparr>)))"

definition sendDump :: "client \<Rightarrow> client \<times> (error + nat)" where
  "sendDump c =
     (if \<not> isConnected c then (c, Inl NotConnected)
      else if lastCommand c = None then (c, Inl HelloRequired)
      else case encodeFrame DUMP_code (currentNonce c) [] of
        Inl e \<Rightarrow> (c, Inl e)
      | Inr frm \<Rightarrow>
          sendFrameAndWaitForResponse frm (currentNonce c) [DUMP_OK, DUMP_FAILED]
            (emit (Ev_frameTransmitted_request DUMP (currentNonce c))
               (c\<lparr>lastCommand := Some DUMP\<rparr>)))"

definition sendStop :: "client \<Rightarrow> client \<times> (error + nat)" where
  "sendStop c =
     (if \<not> isConnected c then (c, Inl NotConnected)
      else case encodeFrame STOP_CMD_code (currentNonce c) [] of
        Inl e \<Rightarrow> (c, Inl e)
      | Inr frm \<Rightarrow>
          sendFrameAndWaitForResponse frm (currentNonce c) [STOP_OK]
            (emit (Ev_frameTransmitted_request STOP_CMD (currentNonce c))
               (c\<lparr>lastCommand := Some STOP_CMD\<rparr>)))"

subsection \<open>Incoming data\<close>

text \<open>
  \<open>processFrames\<close> is the \<open>while\<close> loop of \<open>_handleIncomingData\<close>. The second component of its
  result is the error that leaves the handler uncaught, if any: with nobody listening,
  \<open>emit('error', \<dots>)\<close> throws; inside the \<open>try\<close> the \<open>catch\<close> emits the error once more, which
  throws again.
\<close>

function processFrames :: "client \<Rightarrow> client \<times> error option" where
  "processFrames c =
     (if length (incomingBuffer c) \<ge> LENGTH_PREFIX_SIZE then
        (case getExpectedFrameLength (incomingBuffer c) of
           None \<Rightarrow> (c, None)
         | Some expectedLength \<Rightarrow>
             if length (incomingBuffer c) < expectedLength then (c, None)
             else
               (let frameData = subarray (incomingBuffer c) 0 expectedLength;
                    c1 = c\<lparr>incomingBuffer := drop expectedLength (incomingBuffer c)\<rparr>
                in case decodeFrame frameData of
                     Inl e \<Rightarrow> emit_error e c1
                   | Inr decodedFrame \<Rightarrow>
                       if nonce decodedFrame \<noteq> currentNonce c1 - 1
                       then emit_error INVALID_NONCE c1
                       else
                         (let c2 = (if cmd decodedFrame = DUMP_OK
                                    then c1\<lparr>dumpCounter := dumpCounter c1 + 1\<rparr> else c1);
                              c3 = emit (Ev_frameTransmitted_response
                                           (RESPONSE_NAMES (cmd decodedFrame))
                                           (nonce decodedFrame) (payload decodedFrame)) c2
                          in processFrames (emit_frameReceived decodedFrame c3))))
      else (c, None))"
  by pat_completeness auto
termination
  by (relation "measure (\<lambda>c. length (incomingBuffer c))")
     (auto simp: getExpectedFrameLength_def LENGTH_PREFIX_SIZE_def emit_def
        emit_frameReceived_def settle_all_def split: if_splits)

declare processFrames.simps [simp del]

text \<open>Steps 6 and 7 of the loop body, for a frame that passed the nonce check.\<close>

definition deliver :: "frame \<Rightarrow> client \<Rightarrow> client" where
  "deliver f c =
     emit_frameReceived f
       (emit (Ev_frameTransmitted_response (RESPONSE_NAMES (cmd f)) (nonce f) (payload f))
          (if cmd f = DUMP_OK then c\<lparr>dumpCounter := dumpCounter c + 1\<rparr> else c))"

definition handleIncomingData :: "buffer \<Rightarrow> client \<Rightarrow> client \<times> error option" where
  "handleIncomingData d c = processFrames (c\<lparr>incomingBuffer := incomingBuffer c @ d\<rparr>)"

subsection \<open>Runs of the client\<close>

text \<open>
  Everything that can happen to a client object: a call of one of its methods, or one of the
  callbacks it has registered on a socket or a timer. \<open>step\<close> keeps the new client only.
\<close>

datatype operation =
    Op_connect
  | Op_on_connect
  | Op_on_close
  | Op_on_socket_error error
  | Op_on_timeout
  | Op_disconnect
  | Op_sendHello
  | Op_sendDump
  | Op_sendStop
  | Op_on_data buffer

fun step :: "operation \<Rightarrow> client \<Rightarrow> client" where
  "step Op_connect c = connect c"
| "step Op_on_connect c = on_connect c"
| "step Op_on_close c = on_close c"
| "step (Op_on_socket_error e) c = fst (on_socket_error e c)"
| "step Op_on_timeout c = fst (on_timeout c)"
| "step Op_disconnect c = disconnect c"
| "step Op_sendHello c = fst (sendHello c)"
| "step Op_sendDump c = fst (sendDump c)"
| "step Op_sendStop c = fst (sendStop c)"
| "step (Op_on_data d) c = fst (handleIncomingData d c)"

definition run :: "operation list \<Rightarrow> client \<Rightarrow> client" where
  "run ops c = fold step ops c"

fun is_send :: "operation \<Rightarrow> bool" where
  "is_send Op_sendHello = True"
| "is_send Op_sendDump = True"
| "is_send Op_sendStop = True"
| "is_send _ = False"

text \<open>The frames delivered by \<open>'frameReceived'\<close> and the errors delivered by \<open>'error'\<close>, in
  order.\<close>

fun frames_received :: "event list \<Rightarrow> frame list" where
  "frames_received [] = []"
| "frames_received (Ev_frameReceived f # evs) = f # frames_received evs"
| "frames_received (_ # evs) = frames_received evs"

fun errors_emitted :: "event list \<Rightarrow> error list" where
  "errors_emitted [] = []"
| "errors_emitted (Ev_error e # evs) = e # errors_emitted evs"
| "errors_emitted (_ # evs) = errors_emitted evs"

subsection \<open>Scenarios\<close>

text \<open>
  \<open>connected\<close> is a client right after a successful \<open>connect()\<close>, with the application's
  \<open>'error'\<close> listener installed; \<open>after_hello\<close> has sent HELLO at nonce 0 and waits for the
  answer; \<open>pipelined\<close> has sent DUMP as well without waiting. \<open>wire c n\<close> is the envelope of a
  frame without payload, as the server would send it.
\<close>

definition connected :: client where
  "connected = run [Op_connect, Op_on_connect] (new_client True)"

definition after_hello :: client where
  "after_hello = run [Op_sendHello] connected"

definition pipelined :: client where
  "pipelined = run [Op_sendDump] after_hello"

definition wire :: "int \<Rightarrow> int \<Rightarrow> buffer" where
  "wire c n = projr (encodeFrame c n [])"

definition plain_frame :: "int \<Rightarrow> int \<Rightarrow> frame" where
  "plain_frame c n =
     \<lparr>cmd = c, nonce = n, payload = [], hash = sha256 (spec_hash_input c n []), isValid = True\<rparr>"

text \<open>
  \<open>after_wrong_nonce\<close>: the answer to HELLO arrives with nonce 999 instead of 1;
  \<open>after_corrupted\<close>: what arrives is the corrupted frame.
\<close>

definition after_wrong_nonce :: client where
  "after_wrong_nonce = run [Op_on_data (wire HELLO_ACK 999)] after_hello"

definition after_corrupted :: client where
  "after_corrupted = run [Op_on_data HELLO_wire_corrupted] after_hello"

text \<open>A complete envelope that decodes to \<open>f\<close> and carries the nonce the client waits for.\<close>

definition expected_envelope :: "client \<Rightarrow> buffer \<Rightarrow> frame \<Rightarrow> bool" where
  "expected_envelope c e f \<longleftrightarrow>
     getExpectedFrameLength e = Some (length e) \<and> decodeFrame e = Inr f
     \<and> nonce f = currentNonce c - 1"

text \<open>
  \<open>quiet_run ds c\<close>: fed to the client \<open>c\<close> one after the other, none of the chunks \<open>ds\<close>
  makes the handler throw or emit an error.
\<close>

fun quiet_run :: "buffer list \<Rightarrow> client \<Rightarrow> bool" where
  "quiet_run [] c = True"
| "quiet_run (d # ds) c =
     (snd (handleIncomingData d c) = None
      \<and> errors_emitted (emitted (fst (handleIncomingData d c))) = errors_emitted (emitted c)
      \<and> quiet_run ds (fst (handleIncomingData d c)))"

section \<open>Properties of the platform primitives\<close>

lemma length_sha256_round: "length (sha256_round kw s) = length s"
  by (induction kw s rule: sha256_round.induct) (simp_all add: Let_def)

lemma length_fold_sha256_round: "length (fold sha256_round kws s) = length s"
  by (induction kws arbitrary: s) (simp_all add: length_sha256_round)

lemma length_sha256_block: "length (sha256_block h blk) = length h"
  by (simp add: sha256_block_def length_fold_sha256_round)

lemma length_sha256_blocks: "length (sha256_blocks h m) = length h"
proof (induction h m rule: sha256_blocks.induct)
  case (1 h m)
  show ?case
  proof (cases "length m < 64")
    case True
    then show ?thesis by (simp add: sha256_blocks.simps)
  next
    case False
    then have "sha256_blocks h m = sha256_blocks (sha256_block h (take 64 m)) (drop 64 m)"
      by (subst sha256_blocks.simps) simp
    with 1 False show ?thesis by (simp add: length_sha256_block)
  qed
qed

lemma length_concat_bytes_of_be32: "length (concat (map bytes_of_be32 ws)) = 4 * length ws"
  by (induction ws) (simp_all add: bytes_of_be32_def)

lemma length_sha256: "length (sha256 m) = 32"
  by (simp add: sha256_def length_concat_bytes_of_be32 length_sha256_blocks sha256_init_def)

lemma unbase64_b64_char: "n < 64 \<Longrightarrow> unbase64 (b64_char n) = Some n"
  by (auto simp: unbase64_def b64_char_def unat_of_nat Let_def)

lemma b64_char_not_pad: "n < 64 \<Longrightarrow> b64_char n \<noteq> 61"
  by (auto simp: b64_char_def word_eq_iff_unsigned[where ?'a = nat] unat_of_nat simp del: of_nat_add)
lemma unat_byte_bound: "unat (a :: byte) < 256"
  using unsigned_less [of a, where ?'a = nat] by simp

lemma mask7: "(0x7F :: byte) = mask 7"
  by (simp add: mask_eq_exp_minus_1)

lemma byte_ascii: "unat (w :: byte) < 128 \<Longrightarrow> w AND 0x7F = w"
proof -
  assume "unat w < 128"
  then have "int (unat w) < 128" by linarith
  then have "uint w < 2 ^ 7" by simp
  then have "w AND mask 7 = w" by (simp only: mask_eq_iff)
  then show ?thesis by (simp only: mask7)
qed

lemma b64_char_ascii: "n < 64 \<Longrightarrow> b64_char n AND 0x7F = b64_char n"
  by (rule byte_ascii) (auto simp: b64_char_def unat_of_nat)

lemma toString_ascii_Cons: "toString_ascii (x # xs) = (x AND 0x7F) # toString_ascii xs"
  by (simp add: toString_ascii_def)

lemma toString_ascii_base64_encode: "toString_ascii (base64_encode xs) = base64_encode xs"
proof (induction xs rule: base64_encode.induct)
  case (1 a b c rest)
  have "unat a div 4 < 64" "unat a mod 4 * 16 + unat b div 16 < 64"
       "unat b mod 16 * 4 + unat c div 64 < 64" "unat c mod 64 < 64"
    using unat_byte_bound [of a] unat_byte_bound [of b] unat_byte_bound [of c] by arith+
  with 1 show ?case by (simp add: toString_ascii_Cons b64_char_ascii)
next
  case (2 a b)
  have "unat a div 4 < 64" "unat a mod 4 * 16 + unat b div 16 < 64" "unat b mod 16 * 4 < 64"
    using unat_byte_bound [of a] unat_byte_bound [of b] by arith+
  then show ?case by (simp add: toString_ascii_Cons b64_char_ascii toString_ascii_def)
next
  case (3 a)
  have "unat a div 4 < 64" "unat a mod 4 * 16 < 64"
    using unat_byte_bound [of a] by arith+
  then show ?case by (simp add: toString_ascii_Cons b64_char_ascii toString_ascii_def)
next
  case 4
  show ?case by (simp add: toString_ascii_def)
qed

lemma div3_step: "(n + 5) div 3 = (n + 2) div 3 + 1" for n :: nat
proof -
  have "(n + 2 + 3) div 3 = (n + 2) div 3 + 1" by (rule div_add_self2) simp
  moreover have "n + 5 = n + 2 + 3" by simp
  ultimately show ?thesis by (simp only:)
qed

lemma length_base64_encode: "length (base64_encode xs) = 4 * ((length xs + 2) div 3)"
proof (induction xs rule: base64_encode.induct)
  case (1 a b c rest)
  have "length (base64_encode (a # b # c # rest)) = 4 + length (base64_encode rest)"
    by simp
  also have "\<dots> = 4 + 4 * ((length rest + 2) div 3)"
    by (simp only: 1)
  also have "\<dots> = 4 * ((length rest + 2) div 3 + 1)"
    by simp
  also have "\<dots> = 4 * ((length rest + 5) div 3)"
    by (simp only: div3_step)
  finally have "length (base64_encode (a # b # c # rest)) = 4 * ((length rest + 5) div 3)" .
  moreover have "length (a # b # c # rest) + 2 = length rest + 5" by simp
  ultimately show ?case by (simp only:)
qed simp_all

lemma base64_sextets_Cons:
  "base64_sextets (c # s) =
     (if c = 61 then [] else case unbase64 c of None \<Rightarrow> base64_sextets s | Some v \<Rightarrow> v # base64_sextets s)"
  by (simp add: base64_sextets_def split: option.splits)

lemma base64_sextets_Nil: "base64_sextets [] = []"
  by (simp add: base64_sextets_def)

lemma base64_sextets_pad: "base64_sextets (61 # s) = []"
  by (simp add: base64_sextets_def)

lemma base64_sextets_b64_char:
  "n < 64 \<Longrightarrow> base64_sextets (b64_char n # s) = n # base64_sextets s"
  by (simp add: base64_sextets_Cons unbase64_b64_char b64_char_not_pad)

lemma base64_sextets_encode: "base64_sextets (base64_encode xs) = sextets_of xs"
proof (induction xs rule: base64_encode.induct)
  case (1 a b c rest)
  have "unat a div 4 < 64" "unat a mod 4 * 16 + unat b div 16 < 64"
       "unat b mod 16 * 4 + unat c div 64 < 64" "unat c mod 64 < 64"
    using unat_byte_bound [of a] unat_byte_bound [of b] unat_byte_bound [of c] by arith+
  with 1 show ?case by (simp add: base64_sextets_b64_char)
next
  case (2 a b)
  have "unat a div 4 < 64" "unat a mod 4 * 16 + unat b div 16 < 64" "unat b mod 16 * 4 < 64"
    using unat_byte_bound [of a] unat_byte_bound [of b] by arith+
  then show ?case by (simp add: base64_sextets_b64_char base64_sextets_pad)
next
  case (3 a)
  have "unat a div 4 < 64" "unat a mod 4 * 16 < 64"
    using unat_byte_bound [of a] by arith+
  then show ?case by (simp add: base64_sextets_b64_char base64_sextets_pad)
next
  case 4
  show ?case by (simp add: base64_sextets_Nil)
qed

lemma byte_of_unat: "word_of_nat (unat a) = (a :: byte)"
  by simp

lemma div_mod_shift:
  fixes m y k :: nat
  assumes "y < k"
  shows "(m * k + y) div k = m" and "(m * k + y) mod k = y"
  using assms by simp_all

lemma group_first:
  "word_of_nat (unat a div 4 * 4 + (unat a mod 4 * 16 + unat b div 16) div 16) = (a :: byte)"
  for b :: byte
proof -
  have "unat b div 16 < 16" using unat_byte_bound [of b] by simp
  then have "(unat a mod 4 * 16 + unat b div 16) div 16 = unat a mod 4"
    by (rule div_mod_shift)
  then have "unat a div 4 * 4 + (unat a mod 4 * 16 + unat b div 16) div 16 = unat a"
    by simp
  then show ?thesis by (simp only: byte_of_unat)
qed

lemma group_second:
  "word_of_nat ((unat a mod 4 * 16 + unat b div 16) mod 16 * 16
      + (unat b mod 16 * 4 + unat c div 64) div 4) = (b :: byte)" for a c :: byte
proof -
  have "unat c div 64 < 4" "unat b div 16 < 16"
    using unat_byte_bound [of c] unat_byte_bound [of b] by simp_all
  then have "(unat a mod 4 * 16 + unat b div 16) mod 16 = unat b div 16"
    and "(unat b mod 16 * 4 + unat c div 64) div 4 = unat b mod 16"
    by (simp_all only: div_mod_shift)
  then have "(unat a mod 4 * 16 + unat b div 16) mod 16 * 16
      + (unat b mod 16 * 4 + unat c div 64) div 4 = unat b" by simp
  then show ?thesis by (simp only: byte_of_unat)
qed

lemma group_third:
  "word_of_nat ((unat b mod 16 * 4 + unat c div 64) mod 4 * 64 + unat c mod 64) = (c :: byte)"
  for b :: byte
proof -
  have "unat c div 64 < 4" using unat_byte_bound [of c] by simp
  then have "(unat b mod 16 * 4 + unat c div 64) mod 4 = unat c div 64"
    by (rule div_mod_shift)
  then have "(unat b mod 16 * 4 + unat c div 64) mod 4 * 64 + unat c mod 64 = unat c" by simp
  then show ?thesis by (simp only: byte_of_unat)
qed

lemma group_second_last:
  "word_of_nat ((unat a mod 4 * 16 + unat b div 16) mod 16 * 16 + unat b mod 16 * 4 div 4)
     = (b :: byte)" for a :: byte
proof -
  have "unat b div 16 < 16" using unat_byte_bound [of b] by simp
  then have "(unat a mod 4 * 16 + unat b div 16) mod 16 = unat b div 16"
    by (rule div_mod_shift)
  then have "(unat a mod 4 * 16 + unat b div 16) mod 16 * 16 + unat b mod 16 * 4 div 4 = unat b"
    by simp
  then show ?thesis by (simp only: byte_of_unat)
qed

lemma group_first_last:
  "word_of_nat (unat a div 4 * 4 + unat a mod 4 * 16 div 16) = (a :: byte)"
proof -
  have "unat a div 4 * 4 + unat a mod 4 * 16 div 16 = unat a" by simp
  then show ?thesis by (simp only: byte_of_unat)
qed

lemma base64_groups_sextets_of: "base64_groups (sextets_of xs) = xs"
proof (induction xs rule: sextets_of.induct)
  case (1 a b c rest)
  then show ?case
    by (simp only: sextets_of.simps base64_groups.simps append_Cons append_Nil
          group_first group_second group_third)
next
  case (2 a b)
  show ?case
    by (simp only: sextets_of.simps base64_groups.simps group_first group_second_last)
next
  case (3 a)
  show ?case by (simp only: sextets_of.simps base64_groups.simps group_first_last)
next
  case 4
  show ?case by simp
qed

lemma base64_decode_encode: "base64_decode (base64_encode xs) = xs"
  by (simp add: base64_decode_def base64_sextets_encode base64_groups_sextets_of)

lemma uint_byte_of_int: "0 \<le> v \<Longrightarrow> v < 256 \<Longrightarrow> uint (word_of_int v :: byte) = v"
  by (simp add: uint_word_of_int)

lemma uint_byte_of_int_mod: "uint (word_of_int v :: byte) = v mod 256"
  by (simp add: uint_word_of_int)

lemma unat_byte_of_int_mod: "0 \<le> v \<Longrightarrow> unat (word_of_int v :: byte) = nat v mod 256"
  by (simp add: unat_eq_nat_uint uint_word_of_int nat_mod_distrib del: nat_uint_eq)

lemma readUInt8_write: "writeUInt8 v = Inr b \<Longrightarrow> readUInt8 (b @ rest) 0 = v"
  by (auto simp: writeUInt8_def readUInt8_def uint_word_of_int split: if_splits)

lemma be32_value:
  fixes v :: int
  assumes "0 \<le> v" "v \<le> 4294967295"
  shows "(v div 16777216) mod 256 * 16777216 + (v div 65536) mod 256 * 65536
           + (v div 256) mod 256 * 256 + v mod 256 = v"
proof -
  define q1 where "q1 = v div 256"
  define q2 where "q2 = q1 div 256"
  define q3 where "q3 = q2 div 256"
  define r0 where "r0 = v mod 256"
  define r1 where "r1 = q1 mod 256"
  define r2 where "r2 = q2 mod 256"
  have e0: "v = 256 * q1 + r0" by (simp add: q1_def r0_def)
  have e1: "q1 = 256 * q2 + r1" by (simp add: q2_def r1_def)
  have e2: "q2 = 256 * q3 + r2" by (simp add: q3_def r2_def)
  have d2: "v div 65536 = q2"
    using zdiv_zmult2_eq [of 256 v 256] by (simp add: q1_def q2_def)
  have d3: "v div 16777216 = q3"
    using zdiv_zmult2_eq [of 256 v 65536] d2 by (simp add: q3_def)
  have "q3 < 256" using assms d3 by simp
  moreover have "0 \<le> q3" using assms d3 by simp
  ultimately have m3: "q3 mod 256 = q3" by simp
  have "q3 mod 256 * 16777216 + r2 * 65536 + r1 * 256 + r0 = v"
    unfolding m3 using e0 e1 e2 by linarith
  then show ?thesis
    by (simp only: d2 d3 r0_def r1_def r2_def q1_def [symmetric])
qed

lemma readUInt32BE_write:
  assumes "writeUInt32BE v = Inr b"
  shows "readUInt32BE (x # b @ rest) 1 = v"
proof -
  from assms have r: "0 \<le> v" "v \<le> 4294967295"
    and b: "b = [word_of_int (v div 16777216), word_of_int (v div 65536),
                 word_of_int (v div 256), word_of_int v]"
    by (simp_all add: writeUInt32BE_def split: if_splits)
  have "readUInt32BE (x # b @ rest) 1 =
          (v div 16777216) mod 256 * 16777216 + (v div 65536) mod 256 * 65536
            + (v div 256) mod 256 * 256 + v mod 256"
    unfolding b readUInt32BE_def by (simp add: uint_byte_of_int_mod)
  then show ?thesis by (simp only: be32_value [OF r])
qed

lemma be16_value:
  fixes n :: nat
  assumes "n \<le> 65535"
  shows "(n div 256) mod 256 * 256 + n mod 256 = n"
proof -
  have "n div 256 < 256" using assms by simp
  then show ?thesis by simp
qed

lemma readUInt16BE_write:
  assumes "writeUInt16BE (int n) = Inr b"
  shows "readUInt16BE (b @ rest) 0 = n"
proof -
  from assms have r: "n \<le> 65535"
    and b: "b = [word_of_int (int n div 256), word_of_int (int n)]"
    by (simp_all add: writeUInt16BE_def split: if_splits)
  have "int n div 256 = int (n div 256)" by (simp add: zdiv_int)
  then have "readUInt16BE (b @ rest) 0 = (n div 256) mod 256 * 256 + n mod 256"
    unfolding b readUInt16BE_def by (simp add: unat_of_nat)
  then show ?thesis by (simp only: be16_value [OF r])
qed

section \<open>Properties of the frame codec\<close>

lemma calculateHash_eq:
  "calculateHash c n p =
     (if 0 \<le> c \<and> c \<le> 255 \<and> 0 \<le> n \<and> n \<le> 4294967295
      then Inr (sha256 (spec_hash_input c n p)) else Inl RangeError)"
  by (simp add: calculateHash_def writeUInt8_def writeUInt32BE_def spec_hash_input_def)

lemma calculateHash_Inr:
  "calculateHash c n p = Inr h \<longleftrightarrow>
     (\<exists>cb nb. writeUInt8 c = Inr cb \<and> writeUInt32BE n = Inr nb \<and> h = sha256 (cb @ nb @ p))"
  by (auto simp: calculateHash_def split: sum.splits)

lemma length_writeUInt8: "writeUInt8 v = Inr b \<Longrightarrow> length b = 1"
  by (auto simp: writeUInt8_def split: if_splits)

lemma length_writeUInt32BE: "writeUInt32BE v = Inr b \<Longrightarrow> length b = 4"
  by (auto simp: writeUInt32BE_def split: if_splits)

lemma length_writeUInt16BE: "writeUInt16BE v = Inr b \<Longrightarrow> length b = 2"
  by (auto simp: writeUInt16BE_def split: if_splits)

lemma encodeFrame_Inr:
  assumes "encodeFrame c n p = Inr e"
  obtains cb nb lp where
    "writeUInt8 c = Inr cb" "writeUInt32BE n = Inr nb" "length p \<le> 65535"
    "writeUInt16BE (int (length (base64_encode (cb @ nb @ p @ sha256 (cb @ nb @ p))))) = Inr lp"
    "e = lp @ base64_encode (cb @ nb @ p @ sha256 (cb @ nb @ p))"
  using assms
  by (auto simp: encodeFrame_def calculateHash_def MAX_PAYLOAD_SIZE_def Let_def
      split: if_splits sum.splits)

lemma encodeFrame_expected_length:
  assumes "encodeFrame c n p = Inr e"
  shows "getExpectedFrameLength (e @ rest) = Some (length e)"
proof -
  from assms obtain cb nb lp where
    lp: "writeUInt16BE (int (length (base64_encode (cb @ nb @ p @ sha256 (cb @ nb @ p))))) = Inr lp"
    and e: "e = lp @ base64_encode (cb @ nb @ p @ sha256 (cb @ nb @ p))"
    by (rule encodeFrame_Inr)
  have "readUInt16BE (e @ rest) 0 = length (base64_encode (cb @ nb @ p @ sha256 (cb @ nb @ p)))"
    unfolding e append_assoc by (rule readUInt16BE_write [OF lp])
  then show ?thesis
    using length_writeUInt16BE [OF lp]
    by (simp add: getExpectedFrameLength_def LENGTH_PREFIX_SIZE_def e)
qed

lemma readUInt8_range: "0 \<le> readUInt8 b i \<and> readUInt8 b i \<le> 255"
  using uint_lt2p [of "b ! i"] by (simp add: readUInt8_def)

lemma readUInt32BE_range: "0 \<le> readUInt32BE b i \<and> readUInt32BE b i \<le> 4294967295"
proof -
  have "uint (b ! i) < 256" "uint (b ! (i + 1)) < 256" "uint (b ! (i + 2)) < 256"
       "uint (b ! (i + 3)) < 256"
    using uint_lt2p [of "b ! i"] uint_lt2p [of "b ! (i + 1)"] uint_lt2p [of "b ! (i + 2)"]
      uint_lt2p [of "b ! (i + 3)"] by simp_all
  moreover have "0 \<le> uint (b ! i)" "0 \<le> uint (b ! (i + 1))" "0 \<le> uint (b ! (i + 2))"
       "0 \<le> uint (b ! (i + 3))" by simp_all
  ultimately show ?thesis unfolding readUInt32BE_def by linarith
qed

lemma calculateHash_read:
  "calculateHash (readUInt8 b i) (readUInt32BE b j) p =
     Inr (sha256 (spec_hash_input (readUInt8 b i) (readUInt32BE b j) p))"
  using readUInt8_range [of b i] readUInt32BE_range [of b j] by (simp add: calculateHash_eq)

lemma decodeFrame_structure:
  "decodeFrame fd =
     (if length fd < 2 then Inl MALFORMED_FRAME
      else if length fd < 2 + readUInt16BE fd 0 then Inl MALFORMED_FRAME
      else
        let bin = base64_decode (toString_ascii (take (readUInt16BE fd 0) (drop 2 fd)))
        in if length bin < 37 then Inl MALFORMED_FRAME
           else
             let c = readUInt8 bin 0; n = readUInt32BE bin 1;
                 p = take (length bin - 37) (drop 5 bin)
             in if drop (length bin - 32) bin \<noteq> sha256 (spec_hash_input c n p)
                then Inl HASH_VALIDATION_FAILURE
                else Inr \<lparr>cmd = c, nonce = n, payload = p, hash = drop (length bin - 32) bin,
                          isValid = True\<rparr>)"
proof -
  have p: "(if 0 < length bin - 37 then subarray bin 5 (5 + (length bin - 37)) else [])
             = take (length bin - 37) (drop 5 bin)" for bin :: buffer
    by (simp add: subarray_def)
  have d: "\<not> length bin < 37 \<Longrightarrow> 5 + (length bin - 37) = length bin - 32" for bin :: buffer
    by simp
  show ?thesis
    unfolding decodeFrame_def Buffer_from_base64_def LENGTH_PREFIX_SIZE_def minFrameSize_def
      CMD_LENGTH_def NONCE_LENGTH_def HASH_LENGTH_def
    by (simp add: Let_def calculateHash_read p d subarray_def del: One_nat_def)
qed

lemma decodeFrame_valid:
  assumes "\<not> length fd < 2" "\<not> length fd < 2 + readUInt16BE fd 0"
    and "base64_decode (toString_ascii (take (readUInt16BE fd 0) (drop 2 fd))) = bin"
    and "\<not> length bin < 37"
    and "readUInt8 bin 0 = c" "readUInt32BE bin 1 = n"
    and "take (length bin - 37) (drop 5 bin) = p"
    and "drop (length bin - 32) bin = sha256 (spec_hash_input c n p)"
  shows "decodeFrame fd =
           Inr \<lparr>cmd = c, nonce = n, payload = p, hash = sha256 (spec_hash_input c n p),
                 isValid = True\<rparr>"
  using assms by (simp add: decodeFrame_structure Let_def del: One_nat_def)

lemma decodeFrame_encodeFrame:
  assumes "encodeFrame c n p = Inr e"
  shows "decodeFrame e =
           Inr \<lparr>cmd = c, nonce = n, payload = p, hash = sha256 (spec_hash_input c n p),
                 isValid = True\<rparr>"
proof -
  from assms obtain cb nb lp where
    cb: "writeUInt8 c = Inr cb" and nb: "writeUInt32BE n = Inr nb"
    and lp: "writeUInt16BE (int (length (base64_encode (cb @ nb @ p @ sha256 (cb @ nb @ p))))) = Inr lp"
    and e: "e = lp @ base64_encode (cb @ nb @ p @ sha256 (cb @ nb @ p))"
    by (rule encodeFrame_Inr)
  define bin where "bin = cb @ nb @ p @ sha256 (cb @ nb @ p)"
  note lens = length_writeUInt8 [OF cb] length_writeUInt32BE [OF nb] length_writeUInt16BE [OF lp]
  have l16: "readUInt16BE e 0 = length (base64_encode bin)"
    using readUInt16BE_write [OF lp, of "base64_encode bin"] by (simp add: e bin_def)
  have region: "take (readUInt16BE e 0) (drop 2 e) = base64_encode bin"
    unfolding l16 using lens by (simp add: e bin_def)
  have dec: "base64_decode (toString_ascii (base64_encode bin)) = bin"
    by (simp add: toString_ascii_base64_encode base64_decode_encode)
  have len: "length bin = 37 + length p"
    using lens by (simp add: bin_def length_sha256)
  obtain c0 where c0: "cb = [c0]" using lens(1) by (cases cb) auto
  have r8: "readUInt8 bin 0 = c"
    using readUInt8_write [OF cb] by (simp add: bin_def)
  have r32: "readUInt32BE bin 1 = n"
    using readUInt32BE_write [OF nb, of c0 "p @ sha256 (cb @ nb @ p)"]
    by (simp add: bin_def c0)
  have pl: "take (length bin - 37) (drop 5 bin) = p"
    using lens by (simp add: len) (simp add: bin_def)
  have ch: "sha256 (cb @ nb @ p) = sha256 (spec_hash_input c n p)"
    using cb nb calculateHash_eq [of c n p]
    by (simp add: calculateHash_def split: if_splits)
  have rh: "drop (length bin - 32) bin = sha256 (spec_hash_input c n p)"
    using lens by (simp add: len) (simp add: bin_def ch)
  have a1: "\<not> length e < 2" and a2: "\<not> length e < 2 + readUInt16BE e 0"
    unfolding l16 using lens by (simp_all add: e bin_def)
  have a3: "base64_decode (toString_ascii (take (readUInt16BE e 0) (drop 2 e))) = bin"
    by (simp only: region dec)
  have a4: "\<not> length bin < 37" by (simp add: len)
  show ?thesis
    by (rule decodeFrame_valid [OF a1 a2 a3 a4 r8 r32 pl rh])
qed

lemma encodeFrame_eq_Inr_iff:
  "(\<exists>e. encodeFrame c n p = Inr e) \<longleftrightarrow>
     0 \<le> c \<and> c \<le> 255 \<and> 0 \<le> n \<and> n \<le> 4294967295 \<and> length p \<le> 49112"
proof -
  have "4 * ((39 + length p) div 3) \<le> 65535 \<longleftrightarrow> (39 + length p) div 3 < 16384"
    by linarith
  also have "\<dots> \<longleftrightarrow> 39 + length p < 16384 * 3"
    by (rule div_less_iff_less_mult) simp
  also have "\<dots> \<longleftrightarrow> length p \<le> 49112"
    by linarith
  finally have bound:
    "4 * ((39 + length p) div 3) \<le> 65535 \<longleftrightarrow> length p \<le> 49112" .
  show ?thesis
    using bound
    by (auto simp: encodeFrame_def calculateHash_def MAX_PAYLOAD_SIZE_def Let_def
          writeUInt8_def writeUInt32BE_def writeUInt16BE_def length_base64_encode length_sha256
        split: sum.splits)
qed

lemma encodeFrame_prefix_overflow:
  assumes "0 \<le> c" "c \<le> 255" "0 \<le> n" "n \<le> 4294967295"
    and "49112 < length p" "length p \<le> 65535"
  shows "encodeFrame c n p = Inl RangeError"
proof -
  have "\<not> (\<exists>e. encodeFrame c n p = Inr e)"
    using assms by (simp add: encodeFrame_eq_Inr_iff)
  then obtain err where err: "encodeFrame c n p = Inl err"
    by (cases "encodeFrame c n p") auto
  then show ?thesis
    using assms
    by (auto simp: encodeFrame_def calculateHash_def MAX_PAYLOAD_SIZE_def Let_def
          writeUInt8_def writeUInt32BE_def writeUInt16BE_def split: sum.splits if_splits)
qed

lemma binaryFrame_of_eq:
  "binaryFrame_of fd = base64_decode (toString_ascii (take (readUInt16BE fd 0) (drop 2 fd)))"
  by (simp add: binaryFrame_of_def subarray_def LENGTH_PREFIX_SIZE_def)

lemma decodeFrame_Inr_hash:
  assumes "decodeFrame fd = Inr f"
  shows "hash f = sha256 (spec_hash_input (cmd f) (nonce f) (payload f)) \<and> isValid f
           \<and> hash f = drop (length (binaryFrame_of fd) - 32) (binaryFrame_of fd)"
  using assms unfolding binaryFrame_of_eq
  by (auto simp: decodeFrame_structure Let_def split: if_splits)

subsection \<open>The concrete frames\<close>

lemma sha256_HELLO: "sha256 [1, 0, 0, 0, 0] = HELLO_digest"
  by code_simp

lemma binaryFrame_of_HELLO_wire: "binaryFrame_of HELLO_wire = [1, 0, 0, 0, 0] @ HELLO_digest"
  by code_simp

lemma binaryFrame_of_HELLO_wire_corrupted:
  "binaryFrame_of HELLO_wire_corrupted = [1, 0, 0, 0, 0] @ butlast HELLO_digest @ [216]"
  by code_simp

lemma encodeFrame_HELLO: "encodeFrame HELLO_code 0 [] = Inr HELLO_wire"
proof -
  have "base64_encode ([1, 0, 0, 0, 0] @ HELLO_digest) = drop 2 HELLO_wire"
    by code_simp
  then show ?thesis
    by (simp add: encodeFrame_def calculateHash_def writeUInt8_def writeUInt32BE_def
        writeUInt16BE_def HELLO_code_def MAX_PAYLOAD_SIZE_def sha256_HELLO Let_def)
       (simp add: HELLO_wire_def)
qed

lemma fixture_binary: "binaryFrame_of INVALID_BASE64_fixture = []"
  by (simp add: binaryFrame_of_eq INVALID_BASE64_fixture_def readUInt16BE_def toString_ascii_def
      base64_decode_def base64_sextets_def unbase64_def List.map_filter_def)

section \<open>Properties of the client\<close>

lemma getExpectedFrameLength_append:
  "2 \<le> length buf \<Longrightarrow> getExpectedFrameLength (buf @ b) = getExpectedFrameLength buf"
  by (auto simp: getExpectedFrameLength_def LENGTH_PREFIX_SIZE_def readUInt16BE_def nth_append)

lemma getExpectedFrameLength_Some:
  "getExpectedFrameLength buf = Some n \<Longrightarrow> 2 \<le> length buf \<and> 2 \<le> n"
  by (auto simp: getExpectedFrameLength_def LENGTH_PREFIX_SIZE_def split: if_splits)

lemma processFrames_stall:
  assumes "length (incomingBuffer c) < 2
           \<or> (\<exists>n. getExpectedFrameLength (incomingBuffer c) = Some n \<and> length (incomingBuffer c) < n)"
  shows "processFrames c = (c, None)"
  using assms
  by (subst processFrames.simps) (auto simp: LENGTH_PREFIX_SIZE_def)

lemma processFrames_step:
  assumes "incomingBuffer c = e @ rest" "getExpectedFrameLength e = Some (length e)"
  shows "processFrames c =
           (case decodeFrame e of
              Inl err \<Rightarrow> emit_error err (c\<lparr>incomingBuffer := rest\<rparr>)
            | Inr f \<Rightarrow>
                if nonce f \<noteq> currentNonce c - 1
                then emit_error INVALID_NONCE (c\<lparr>incomingBuffer := rest\<rparr>)
                else processFrames (deliver f (c\<lparr>incomingBuffer := rest\<rparr>)))"
proof -
  have l: "2 \<le> length e" using assms(2) by (auto dest: getExpectedFrameLength_Some)
  then have g: "getExpectedFrameLength (e @ rest) = Some (length e)"
    using assms(2) by (simp add: getExpectedFrameLength_append)
  show ?thesis
    using l
    by (subst processFrames.simps)
       (simp add: assms(1) g LENGTH_PREFIX_SIZE_def subarray_def Let_def deliver_def
          split: sum.splits)
qed

lemma add_settlements_Cons:
  "add_settlements log (x # xs) =
     (if fst x \<in> fst ` set log then add_settlements log xs
      else add_settlements (log @ [x]) xs)"
  by (cases x) simp

lemma add_settlements_subset: "set (add_settlements log xs) \<subseteq> set log \<union> set xs"
proof (induction xs arbitrary: log)
  case Nil
  show ?case by simp
next
  case (Cons x xs)
  show ?case
    using Cons.IH [of log] Cons.IH [of "log @ [x]"]
    by (auto simp: add_settlements_Cons)
qed

lemma add_settlements_keeps: "set log \<subseteq> set (add_settlements log xs)"
proof (induction xs arbitrary: log)
  case Nil
  show ?case by simp
next
  case (Cons x xs)
  show ?case
    using Cons.IH [of log] Cons.IH [of "log @ [x]"]
    by (auto simp: add_settlements_Cons)
qed

lemma add_settlements_ids:
  "fst ` set (add_settlements log xs) = fst ` set log \<union> fst ` set xs"
proof (induction xs arbitrary: log)
  case Nil
  show ?case by simp
next
  case (Cons x xs)
  show ?case
    using Cons.IH [of log] Cons.IH [of "log @ [x]"]
    by (auto simp: add_settlements_Cons)
qed

lemma add_settlements_fresh:
  "distinct (map fst xs) \<Longrightarrow> fst ` set xs \<inter> fst ` set log = {} \<Longrightarrow>
     add_settlements log xs = log @ xs"
proof (induction xs arbitrary: log)
  case Nil
  show ?case by simp
next
  case (Cons x xs)
  have "add_settlements (log @ [x]) xs = (log @ [x]) @ xs"
    using Cons.prems by (intro Cons.IH) auto
  then show ?case
    using Cons.prems by (auto simp: add_settlements_Cons)
qed

lemma frames_received_append:
  "frames_received (xs @ ys) = frames_received xs @ frames_received ys"
  by (induction xs rule: frames_received.induct) simp_all

lemma errors_emitted_append:
  "errors_emitted (xs @ ys) = errors_emitted xs @ errors_emitted ys"
  by (induction xs rule: errors_emitted.induct) simp_all

lemma deliver_fields:
  "incomingBuffer (deliver f c) = incomingBuffer c"
  "currentNonce (deliver f c) = currentNonce c"
  "isConnected (deliver f c) = isConnected c"
  "socket (deliver f c) = socket c"
  "lastCommand (deliver f c) = lastCommand c"
  "written (deliver f c) = written c"
  "errorListener (deliver f c) = errorListener c"
  "emitted (deliver f c) =
     emitted c @ [Ev_frameTransmitted_response (RESPONSE_NAMES (cmd f)) (nonce f) (payload f),
                  Ev_frameReceived f]"
  by (simp_all add: deliver_def emit_frameReceived_def emit_def settle_all_def)

lemma deliver_incomingBuffer_update:
  "deliver f (c\<lparr>incomingBuffer := b\<rparr>) = (deliver f c)\<lparr>incomingBuffer := b\<rparr>"
  by (simp add: deliver_def emit_frameReceived_def emit_def settle_all_def)

lemma emit_error_fields:
  assumes "emit_error e c = (c', None)"
  shows "emitted c' = emitted c @ [Ev_error e]" "exchanges c' = []"
    "incomingBuffer c' = incomingBuffer c" "currentNonce c' = currentNonce c"
    "isConnected c' = isConnected c" "socket c' = socket c" "lastCommand c' = lastCommand c"
    "written c' = written c"
    "settled c' = add_settlements (settled c) (map (\<lambda>p. (exchangeId p, Rejected e)) (exchanges c))"
  using assms
  by (auto simp: emit_error_def reject_all_def settle_all_def emit_def split: if_splits)

lemma emit_error_thrown:
  "emit_error e c = (c', Some e') \<Longrightarrow> c' = c \<and> e' = e \<and> exchanges c = [] \<and> \<not> errorListener c"
  by (auto simp: emit_error_def split: if_splits)

lemma emit_error_listening:
  "exchanges c \<noteq> [] \<or> errorListener c \<Longrightarrow>
     emit_error e c = (reject_all e (emit (Ev_error e) c), None)"
  by (auto simp: emit_error_def)

lemma encodeFrame_wire:
  assumes "0 \<le> c" "c \<le> 255" "0 \<le> n" "n \<le> 4294967295"
  shows "encodeFrame c n [] = Inr (wire c n)"
proof -
  have "\<exists>e. encodeFrame c n [] = Inr e"
    using assms by (simp add: encodeFrame_eq_Inr_iff)
  then show ?thesis by (auto simp: wire_def)
qed

lemma decodeFrame_wire:
  assumes "0 \<le> c" "c \<le> 255" "0 \<le> n" "n \<le> 4294967295"
  shows "decodeFrame (wire c n) = Inr (plain_frame c n)"
  using decodeFrame_encodeFrame [OF encodeFrame_wire [OF assms]] by (simp add: plain_frame_def)

lemma expected_length_wire:
  assumes "0 \<le> c" "c \<le> 255" "0 \<le> n" "n \<le> 4294967295"
  shows "getExpectedFrameLength (wire c n) = Some (length (wire c n))"
  using encodeFrame_expected_length [OF encodeFrame_wire [OF assms], of "[]"] by simp

lemma wire_HELLO: "wire HELLO_code 0 = HELLO_wire"
  by (simp add: wire_def encodeFrame_HELLO)

lemma handle_envelope:
  assumes "incomingBuffer c = []" "getExpectedFrameLength e = Some (length e)"
  shows "handleIncomingData (e @ rest) c =
           (case decodeFrame e of
              Inl err \<Rightarrow> emit_error err (c\<lparr>incomingBuffer := rest\<rparr>)
            | Inr f \<Rightarrow>
                if nonce f \<noteq> currentNonce c - 1
                then emit_error INVALID_NONCE (c\<lparr>incomingBuffer := rest\<rparr>)
                else processFrames (deliver f (c\<lparr>incomingBuffer := rest\<rparr>)))"
  unfolding handleIncomingData_def
  by (subst processFrames_step [where e = e and rest = rest])
     (simp_all add: assms split: sum.splits)

lemma connected_eq:
  "connected =
     \<lparr>socket = True, isConnected = True, currentNonce = 0, lastCommand = None,
      dumpCounter = 0, incomingBuffer = [], connectionTimer = False, exchanges = [],
      errorListener = True, nextExchange = 0, written = [], emitted = [Ev_connected],
      settled = []\<rparr>"
  by (simp add: connected_def run_def connect_def on_connect_def new_client_def emit_def)

lemma after_hello_eq:
  "after_hello =
     \<lparr>socket = True, isConnected = True, currentNonce = 2, lastCommand = Some HELLO,
      dumpCounter = 0, incomingBuffer = [], connectionTimer = False,
      exchanges = [\<lparr>exchangeId = 0, sentNonce = 0, expectedCodes = [HELLO_ACK]\<rparr>],
      errorListener = True, nextExchange = 1, written = [HELLO_wire],
      emitted = [Ev_connected, Ev_frameTransmitted_request HELLO 0], settled = []\<rparr>"
  by (simp add: after_hello_def run_def connected_eq sendHello_def encodeFrame_HELLO
      sendFrameAndWaitForResponse_def emit_def Let_def)

lemma pipelined_eq:
  "pipelined =
     \<lparr>socket = True, isConnected = True, currentNonce = 4, lastCommand = Some DUMP,
      dumpCounter = 0, incomingBuffer = [], connectionTimer = False,
      exchanges = [\<lparr>exchangeId = 0, sentNonce = 0, expectedCodes = [HELLO_ACK]\<rparr>,
                   \<lparr>exchangeId = 1, sentNonce = 2, expectedCodes = [DUMP_OK, DUMP_FAILED]\<rparr>],
      errorListener = True, nextExchange = 2, written = [HELLO_wire, wire DUMP_code 2],
      emitted = [Ev_connected, Ev_frameTransmitted_request HELLO 0,
                 Ev_frameTransmitted_request DUMP 2], settled = []\<rparr>"
  by (simp add: pipelined_def run_def after_hello_eq sendDump_def
      encodeFrame_wire [of DUMP_code 2, unfolded DUMP_code_def, simplified] DUMP_code_def
      sendFrameAndWaitForResponse_def emit_def Let_def)

lemma currentNonce_emit_error: "currentNonce (fst (emit_error e c)) = currentNonce c"
  by (simp add: emit_error_def reject_all_def settle_all_def emit_def)

lemma currentNonce_processFrames: "currentNonce (fst (processFrames c)) = currentNonce c"
proof (induction c rule: processFrames.induct)
  case (1 c)
  show ?case
  proof (cases "length (incomingBuffer c) < 2
           \<or> (\<exists>n. getExpectedFrameLength (incomingBuffer c) = Some n \<and> length (incomingBuffer c) < n)")
    case True
    then show ?thesis by (simp add: processFrames_stall)
  next
    case False
    then obtain n where n: "getExpectedFrameLength (incomingBuffer c) = Some n"
      "n \<le> length (incomingBuffer c)" "2 \<le> length (incomingBuffer c)"
      by (auto simp: getExpectedFrameLength_def LENGTH_PREFIX_SIZE_def split: if_splits)
    show ?thesis
      using n 1
      by (subst processFrames.simps)
         (auto simp: LENGTH_PREFIX_SIZE_def Let_def currentNonce_emit_error
            emit_frameReceived_def emit_def settle_all_def split: sum.splits)
  qed
qed

lemma currentNonce_send:
  "sendFrameAndWaitForResponse frm n codes c = (c', r) \<Longrightarrow>
     (written c' = written c \<and> currentNonce c' = currentNonce c)
     \<or> (written c' = written c @ [frm] \<and> currentNonce c' = currentNonce c + 2)"
  by (auto simp: sendFrameAndWaitForResponse_def Let_def settle_all_def split: if_splits)

lemma lastCommand_emit_error: "lastCommand (fst (emit_error e c)) = lastCommand c"
  by (simp add: emit_error_def reject_all_def settle_all_def emit_def)

lemma lastCommand_processFrames: "lastCommand (fst (processFrames c)) = lastCommand c"
proof (induction c rule: processFrames.induct)
  case (1 c)
  show ?case
  proof (cases "length (incomingBuffer c) < 2
           \<or> (\<exists>n. getExpectedFrameLength (incomingBuffer c) = Some n \<and> length (incomingBuffer c) < n)")
    case True
    then show ?thesis by (simp add: processFrames_stall)
  next
    case False
    then obtain n where n: "getExpectedFrameLength (incomingBuffer c) = Some n"
      "n \<le> length (incomingBuffer c)" "2 \<le> length (incomingBuffer c)"
      by (auto simp: getExpectedFrameLength_def LENGTH_PREFIX_SIZE_def split: if_splits)
    show ?thesis
      using n 1
      by (subst processFrames.simps)
         (auto simp: LENGTH_PREFIX_SIZE_def Let_def lastCommand_emit_error
            emit_frameReceived_def emit_def settle_all_def split: sum.splits)
  qed
qed

lemma lastCommand_step:
  assumes "op \<noteq> Op_on_connect" "lastCommand c \<noteq> None"
  shows "lastCommand (step op c) \<noteq> None"
proof (cases op)
  case (Op_on_data d)
  then show ?thesis
    using assms by (simp add: handleIncomingData_def lastCommand_processFrames)
qed (use assms in \<open>auto simp: connect_def on_close_def on_socket_error_def on_timeout_def
       disconnect_def emit_def emit_disconnected_def reject_all_def settle_all_def
       lastCommand_emit_error sendHello_def sendDump_def sendStop_def
       sendFrameAndWaitForResponse_def Let_def split: sum.splits\<close>)

lemma lastCommand_run:
  "Op_on_connect \<notin> set ops \<Longrightarrow> lastCommand c \<noteq> None \<Longrightarrow> lastCommand (run ops c) \<noteq> None"
  unfolding run_def
proof (induction ops arbitrary: c)
  case Nil
  then show ?case by simp
next
  case (Cons a ops)
  have "lastCommand (step a c) \<noteq> None"
    using Cons.prems by (intro lastCommand_step) auto
  then have "lastCommand (fold step ops (step a c)) \<noteq> None"
    using Cons.prems by (intro Cons.IH) auto
  then show ?case by simp
qed

lemma encodeFrame_Inl:
  "encodeFrame c n p = Inl e \<Longrightarrow> e = RangeError \<or> e = PayloadSizeExceedsMaximum"
  by (auto simp: encodeFrame_def calculateHash_def writeUInt8_def writeUInt32BE_def
        writeUInt16BE_def Let_def split: if_splits sum.splits)

lemma sendStop_connected:
  assumes "isConnected c" "0 \<le> currentNonce c" "currentNonce c \<le> 4294967295"
  shows "sendStop c =
           sendFrameAndWaitForResponse (wire STOP_CMD_code (currentNonce c)) (currentNonce c)
             [STOP_OK]
             (emit (Ev_frameTransmitted_request STOP_CMD (currentNonce c))
                (c\<lparr>lastCommand := Some STOP_CMD\<rparr>))"
  using assms
  by (simp add: sendStop_def encodeFrame_wire STOP_CMD_code_def)

lemma sendHello_connected:
  assumes "isConnected c" "0 \<le> currentNonce c" "currentNonce c \<le> 4294967295"
  shows "sendHello c =
           sendFrameAndWaitForResponse (wire HELLO_code (currentNonce c)) (currentNonce c)
             [HELLO_ACK]
             (emit (Ev_frameTransmitted_request HELLO (currentNonce c))
                (c\<lparr>lastCommand := Some HELLO\<rparr>))"
  using assms
  by (simp add: sendHello_def encodeFrame_wire HELLO_code_def)

lemma sendDump_connected:
  assumes "isConnected c" "0 \<le> currentNonce c" "currentNonce c \<le> 4294967295"
    and "lastCommand c \<noteq> None"
  shows "sendDump c =
           sendFrameAndWaitForResponse (wire DUMP_code (currentNonce c)) (currentNonce c)
             [DUMP_OK, DUMP_FAILED]
             (emit (Ev_frameTransmitted_request DUMP (currentNonce c))
                (c\<lparr>lastCommand := Some DUMP\<rparr>))"
  using assms
  by (cases "lastCommand c") (simp_all add: sendDump_def encodeFrame_wire DUMP_code_def)

lemma HELLO_wire_corrupted_facts:
  "getExpectedFrameLength HELLO_wire_corrupted = Some (length HELLO_wire_corrupted)"
  "decodeFrame HELLO_wire_corrupted = Inl HASH_VALIDATION_FAILURE"
proof -
  have l: "readUInt16BE HELLO_wire_corrupted 0 = 52" "length HELLO_wire_corrupted = 54"
    by (simp_all add: HELLO_wire_corrupted_def readUInt16BE_def)
  show "getExpectedFrameLength HELLO_wire_corrupted = Some (length HELLO_wire_corrupted)"
    by (simp add: getExpectedFrameLength_def l LENGTH_PREFIX_SIZE_def)
  have "butlast HELLO_digest @ [216] \<noteq> HELLO_digest" "length HELLO_digest = 32"
    "spec_hash_input 1 0 [] = [1, 0, 0, 0, 0]"
    by (simp_all add: HELLO_digest_def spec_hash_input_def)
  then show "decodeFrame HELLO_wire_corrupted = Inl HASH_VALIDATION_FAILURE"
    using binaryFrame_of_HELLO_wire_corrupted
    by (simp add: decodeFrame_structure l binaryFrame_of_eq Let_def readUInt8_def
        readUInt32BE_def sha256_HELLO)
qed

lemma after_wrong_nonce_eq:
  "after_wrong_nonce =
     after_hello\<lparr>exchanges := [], emitted := emitted after_hello @ [Ev_error INVALID_NONCE],
                 settled := [(0, Rejected INVALID_NONCE)]\<rparr>"
proof -
  have r: "(0::int) \<le> HELLO_ACK" "HELLO_ACK \<le> 255" "(0::int) \<le> 999" "(999::int) \<le> 4294967295"
    by (simp_all add: HELLO_ACK_def)
  have "handleIncomingData (wire HELLO_ACK 999 @ []) after_hello =
          emit_error INVALID_NONCE (after_hello\<lparr>incomingBuffer := []\<rparr>)"
    by (subst handle_envelope)
       (simp_all add: after_hello_eq expected_length_wire [OF r] decodeFrame_wire [OF r]
          plain_frame_def)
  then show ?thesis
    by (simp add: after_wrong_nonce_def run_def)
       (simp add: after_hello_eq emit_error_def reject_all_def settle_all_def emit_def)
qed

lemma after_corrupted_eq:
  "after_corrupted =
     after_hello\<lparr>exchanges := [],
                 emitted := emitted after_hello @ [Ev_error HASH_VALIDATION_FAILURE],
                 settled := [(0, Rejected HASH_VALIDATION_FAILURE)]\<rparr>"
proof -
  have "handleIncomingData (HELLO_wire_corrupted @ []) after_hello =
          emit_error HASH_VALIDATION_FAILURE (after_hello\<lparr>incomingBuffer := []\<rparr>)"
    by (subst handle_envelope)
       (simp_all add: after_hello_eq HELLO_wire_corrupted_facts)
  then show ?thesis
    by (simp add: after_corrupted_def run_def)
       (simp add: after_hello_eq emit_error_def reject_all_def settle_all_def emit_def)
qed

lemma errors_emitted_deliver:
  "errors_emitted (emitted (deliver f c)) = errors_emitted (emitted c)"
  by (simp add: deliver_fields errors_emitted_append)

lemma frames_received_deliver:
  "frames_received (emitted (deliver f c)) = frames_received (emitted c) @ [f]"
  by (simp add: deliver_fields frames_received_append)

lemma emit_error_adds_error:
  assumes "emit_error e c = (c1, None)"
  shows "errors_emitted (emitted c1) = errors_emitted (emitted c) @ [e]"
  using emit_error_fields(1) [OF assms] by (simp add: errors_emitted_append)

lemma complete_envelope_split:
  assumes "getExpectedFrameLength buf = Some n" "n \<le> length buf"
  shows "buf = take n buf @ drop n buf"
    and "getExpectedFrameLength (take n buf) = Some (length (take n buf))"
    and "length (drop n buf) < length buf"
proof -
  have n: "2 \<le> n" "2 \<le> length buf"
    using assms(1) by (auto dest: getExpectedFrameLength_Some)
  show "buf = take n buf @ drop n buf" by simp
  have "getExpectedFrameLength (take n buf @ drop n buf) = getExpectedFrameLength (take n buf)"
    using n assms(2) by (intro getExpectedFrameLength_append) simp
  then show "getExpectedFrameLength (take n buf) = Some (length (take n buf))"
    using assms by simp
  show "length (drop n buf) < length buf"
    using n assms(2) by simp
qed

lemma processFrames_append:
  assumes "processFrames c = (c1, None)"
    and "errors_emitted (emitted c1) = errors_emitted (emitted c)"
  shows "processFrames (c\<lparr>incomingBuffer := incomingBuffer c @ b\<rparr>)
           = processFrames (c1\<lparr>incomingBuffer := incomingBuffer c1 @ b\<rparr>)"
  using assms
proof (induction "length (incomingBuffer c)" arbitrary: c rule: less_induct)
  case less
  show ?case
  proof (cases "length (incomingBuffer c) < 2
           \<or> (\<exists>n. getExpectedFrameLength (incomingBuffer c) = Some n \<and> length (incomingBuffer c) < n)")
    case True
    then have "processFrames c = (c, None)" by (rule processFrames_stall)
    with less.prems show ?thesis by simp
  next
    case False
    then obtain n where n: "getExpectedFrameLength (incomingBuffer c) = Some n"
      "n \<le> length (incomingBuffer c)"
      by (auto simp: getExpectedFrameLength_def LENGTH_PREFIX_SIZE_def split: if_splits)
    define e where "e = take n (incomingBuffer c)"
    define rest where "rest = drop n (incomingBuffer c)"
    note sp = complete_envelope_split [OF n, folded e_def rest_def]
    have step: "processFrames c =
           (case decodeFrame e of
              Inl err \<Rightarrow> emit_error err (c\<lparr>incomingBuffer := rest\<rparr>)
            | Inr f \<Rightarrow>
                if nonce f \<noteq> currentNonce c - 1
                then emit_error INVALID_NONCE (c\<lparr>incomingBuffer := rest\<rparr>)
                else processFrames (deliver f (c\<lparr>incomingBuffer := rest\<rparr>)))"
      by (rule processFrames_step [OF sp(1) sp(2)])
    have step': "processFrames (c\<lparr>incomingBuffer := incomingBuffer c @ b\<rparr>) =
           (case decodeFrame e of
              Inl err \<Rightarrow> emit_error err (c\<lparr>incomingBuffer := rest @ b\<rparr>)
            | Inr f \<Rightarrow>
                if nonce f \<noteq> currentNonce c - 1
                then emit_error INVALID_NONCE (c\<lparr>incomingBuffer := rest @ b\<rparr>)
                else processFrames (deliver f (c\<lparr>incomingBuffer := rest @ b\<rparr>)))"
    proof -
      have "incomingBuffer (c\<lparr>incomingBuffer := incomingBuffer c @ b\<rparr>) = e @ (rest @ b)"
        using sp(1) by simp
      from processFrames_step [OF this sp(2)] show ?thesis
        by (simp split: sum.splits)
    qed
    show ?thesis
    proof (cases "decodeFrame e")
      case (Inl err)
      then have "emit_error err (c\<lparr>incomingBuffer := rest\<rparr>) = (c1, None)"
        using step less.prems(1) by simp
      from emit_error_adds_error [OF this] less.prems(2) show ?thesis by simp
    next
      case (Inr f)
      show ?thesis
      proof (cases "nonce f \<noteq> currentNonce c - 1")
        case True
        then have "emit_error INVALID_NONCE (c\<lparr>incomingBuffer := rest\<rparr>) = (c1, None)"
          using step less.prems(1) Inr by simp
        from emit_error_adds_error [OF this] less.prems(2) show ?thesis by simp
      next
        case False
        define c' where "c' = deliver f (c\<lparr>incomingBuffer := rest\<rparr>)"
        have b': "incomingBuffer c' = rest"
          by (simp add: c'_def deliver_fields)
        have "processFrames c' = (c1, None)"
          using step less.prems(1) Inr False by (simp add: c'_def)
        moreover have "errors_emitted (emitted c1) = errors_emitted (emitted c')"
          using less.prems(2) by (simp add: c'_def errors_emitted_deliver)
        moreover have "length (incomingBuffer c') < length (incomingBuffer c)"
          using sp(3) by (simp add: b')
        ultimately have "processFrames (c'\<lparr>incomingBuffer := incomingBuffer c' @ b\<rparr>)
            = processFrames (c1\<lparr>incomingBuffer := incomingBuffer c1 @ b\<rparr>)"
          by (intro less.hyps)
        moreover have "deliver f (c\<lparr>incomingBuffer := rest @ b\<rparr>)
            = c'\<lparr>incomingBuffer := incomingBuffer c' @ b\<rparr>"
          by (simp add: b') (simp add: c'_def deliver_incomingBuffer_update)
        ultimately show ?thesis
          using step' Inr False by simp
      qed
    qed
  qed
qed

lemma handle_chunks:
  assumes "snd (handleIncomingData a c) = None"
    and "errors_emitted (emitted (fst (handleIncomingData a c))) = errors_emitted (emitted c)"
  shows "handleIncomingData b (fst (handleIncomingData a c)) = handleIncomingData (a @ b) c"
proof -
  define c0 where "c0 = c\<lparr>incomingBuffer := incomingBuffer c @ a\<rparr>"
  define c1 where "c1 = fst (processFrames c0)"
  have "processFrames c0 = (c1, None)"
    using assms(1) by (simp add: c1_def c0_def handleIncomingData_def prod_eq_iff)
  moreover have "errors_emitted (emitted c1) = errors_emitted (emitted c0)"
    using assms(2) by (simp add: c1_def c0_def handleIncomingData_def)
  ultimately have "processFrames (c0\<lparr>incomingBuffer := incomingBuffer c0 @ b\<rparr>)
      = processFrames (c1\<lparr>incomingBuffer := incomingBuffer c1 @ b\<rparr>)"
    by (rule processFrames_append)
  then show ?thesis
    by (simp add: handleIncomingData_def c1_def c0_def)
qed

lemma incomingBuffer_update_same: "incomingBuffer c = b \<Longrightarrow> c\<lparr>incomingBuffer := b\<rparr> = c"
  by (cases c) simp

lemma handle_expected_envelope:
  assumes "incomingBuffer c = []" "expected_envelope c e f"
  shows "handleIncomingData e c = (deliver f c, None)"
proof -
  have "handleIncomingData (e @ []) c = processFrames (deliver f (c\<lparr>incomingBuffer := []\<rparr>))"
    using assms by (subst handle_envelope) (simp_all add: expected_envelope_def)
  also have "\<dots> = (deliver f (c\<lparr>incomingBuffer := []\<rparr>), None)"
    by (rule processFrames_stall) (simp add: deliver_fields)
  finally show ?thesis
    using assms(1) by (simp add: incomingBuffer_update_same)
qed

lemma handle_proper_prefix:
  assumes "incomingBuffer c = []" "getExpectedFrameLength (a @ b) = Some (length (a @ b))"
    and "b \<noteq> []"
  shows "handleIncomingData a c = (c\<lparr>incomingBuffer := a\<rparr>, None)"
proof -
  have "length a < 2 \<or> (\<exists>n. getExpectedFrameLength a = Some n \<and> length a < n)"
  proof (cases "length a < 2")
    case False
    then have "getExpectedFrameLength (a @ b) = getExpectedFrameLength a"
      by (intro getExpectedFrameLength_append) simp
    with assms(2,3) show ?thesis by simp
  qed simp
  then have "processFrames (c\<lparr>incomingBuffer := a\<rparr>) = (c\<lparr>incomingBuffer := a\<rparr>, None)"
    by (intro processFrames_stall) simp
  then show ?thesis
    using assms(1) by (simp add: handleIncomingData_def)
qed

lemma handle_two_envelopes:
  assumes "incomingBuffer c = []" "expected_envelope c e1 f1" "expected_envelope c e2 f2"
  shows "handleIncomingData (e1 @ e2) c = (deliver f2 (deliver f1 c), None)"
proof -
  define c1 where "c1 = deliver f1 c"
  have c1: "incomingBuffer c1 = []" "currentNonce c1 = currentNonce c"
    using assms(1) by (simp_all add: c1_def deliver_fields)
  have "handleIncomingData (e1 @ e2) c = processFrames (deliver f1 (c\<lparr>incomingBuffer := e2\<rparr>))"
    using assms(1,2) by (subst handle_envelope) (simp_all add: expected_envelope_def)
  also have "deliver f1 (c\<lparr>incomingBuffer := e2\<rparr>) = c1\<lparr>incomingBuffer := e2\<rparr>"
    by (simp add: c1_def deliver_incomingBuffer_update)
  also have "processFrames (c1\<lparr>incomingBuffer := e2\<rparr>)
      = processFrames (deliver f2 (c1\<lparr>incomingBuffer := e2, incomingBuffer := []\<rparr>))"
    using assms(3) c1(2)
    by (subst processFrames_step [where e = e2 and rest = "[]"])
       (simp_all add: expected_envelope_def)
  also have "deliver f2 (c1\<lparr>incomingBuffer := e2, incomingBuffer := []\<rparr>) = deliver f2 c1"
    using c1(1) by (simp add: incomingBuffer_update_same)
  also have "processFrames (deliver f2 c1) = (deliver f2 c1, None)"
    using c1(1) by (intro processFrames_stall) (simp add: deliver_fields)
  finally show ?thesis by (simp add: c1_def)
qed

lemma length_wire:
  assumes "0 \<le> c" "c \<le> 255" "0 \<le> n" "n \<le> 4294967295"
  shows "length (wire c n) = 54"
proof -
  obtain cb nb lp where
    "writeUInt8 c = Inr cb" "writeUInt32BE n = Inr nb"
    "writeUInt16BE (int (length (base64_encode (cb @ nb @ [] @ sha256 (cb @ nb @ []))))) = Inr lp"
    "wire c n = lp @ base64_encode (cb @ nb @ [] @ sha256 (cb @ nb @ []))"
    using encodeFrame_Inr [OF encodeFrame_wire [OF assms]] by metis
  then show ?thesis
    using length_writeUInt8 [of c cb] length_writeUInt32BE [of n nb] length_writeUInt16BE [of _ lp]
    by (simp add: length_base64_encode length_sha256)
qed

lemma expected_envelope_wire:
  assumes "0 \<le> k" "k \<le> 255" "0 \<le> n" "n \<le> 4294967295" "n = currentNonce c - 1"
  shows "expected_envelope c (wire k n) (plain_frame k n)"
  using assms
  by (simp add: expected_envelope_def expected_length_wire decodeFrame_wire plain_frame_def)

lemma run_chunks:
  "quiet_run (d # ds) c \<Longrightarrow>
     run (map Op_on_data (d # ds)) c = fst (handleIncomingData (concat (d # ds)) c)"
proof (induction ds arbitrary: d c)
  case Nil
  show ?case by (simp add: run_def)
next
  case (Cons d' ds)
  define c1 where "c1 = fst (handleIncomingData d c)"
  from Cons.prems have q: "snd (handleIncomingData d c) = None"
    "errors_emitted (emitted (fst (handleIncomingData d c))) = errors_emitted (emitted c)"
    and q1: "quiet_run (d' # ds) c1"
    by (simp_all add: c1_def)
  have "run (map Op_on_data (d # d' # ds)) c = run (map Op_on_data (d' # ds)) c1"
    by (simp add: run_def c1_def)
  also have "\<dots> = fst (handleIncomingData (concat (d' # ds)) c1)"
    by (rule Cons.IH [OF q1])
  also have "handleIncomingData (concat (d' # ds)) c1 = handleIncomingData (d @ concat (d' # ds)) c"
    unfolding c1_def by (rule handle_chunks [OF q])
  finally show ?case by simp
qed

section \<open>Claims about the frame codec\<close>

text \<open>
  Claim C1 (round trip for every payload of 0 to 65535 bytes). The length prefix counts the
  Base64 characters and has 16 bits, so \<open>writeUInt16BE\<close> throws a range error as soon as the
  payload has more than 49112 bytes: a payload of 49113 bytes passes the \<open>MAX_PAYLOAD_SIZE\<close>
  check and \<open>encodeFrame\<close> still fails. For the payloads that \<open>encodeFrame\<close> does encode,
  \<open>decodeFrame_encodeFrame\<close> and \<open>encodeFrame_eq_Inr_iff\<close> above give the round trip.
\<close>

theorem encodeFrame_max_payload_fails:
  "length (replicate 49113 (0 :: byte)) \<le> MAX_PAYLOAD_SIZE
     \<and> encodeFrame HELLO_code 0 (replicate 49113 0) = Inl RangeError"
  by (simp add: MAX_PAYLOAD_SIZE_def HELLO_code_def encodeFrame_prefix_overflow)

text \<open>
  Claim C2. On a wire buffer that holds its declared Base64 region and whose region decodes to
  at least 37 bytes, \<open>decodeFrame\<close> hashes command, big-endian nonce and payload as parsed from
  the binary frame and fails with \<open>HASH_VALIDATION_FAILURE\<close> exactly when the trailing 32 bytes
  differ from that digest; and on any buffer at all, a frame that is returned carries the digest
  of its own command, nonce and payload.
\<close>

theorem decodeFrame_hash_check:
  "(2 \<le> length fd \<and> 2 + readUInt16BE fd 0 \<le> length fd \<and> 37 \<le> length (binaryFrame_of fd) \<longrightarrow>
      (let bin = binaryFrame_of fd;
           c = readUInt8 bin 0; n = readUInt32BE bin 1; p = take (length bin - 37) (drop 5 bin);
           stored = drop (length bin - 32) bin
       in decodeFrame fd =
            (if stored \<noteq> sha256 (spec_hash_input c n p) then Inl HASH_VALIDATION_FAILURE
             else Inr \<lparr>cmd = c, nonce = n, payload = p, hash = stored, isValid = True\<rparr>)))
   \<and> (\<forall>f. decodeFrame fd = Inr f \<longrightarrow>
          hash f = sha256 (spec_hash_input (cmd f) (nonce f) (payload f)) \<and> isValid f
          \<and> hash f = drop (length (binaryFrame_of fd) - 32) (binaryFrame_of fd))"
  using decodeFrame_Inr_hash [of fd]
  by (auto simp: decodeFrame_structure binaryFrame_of_eq Let_def)

theorem decodeFrame_hash_check_witness:
  "2 \<le> length HELLO_wire_corrupted
   \<and> 2 + readUInt16BE HELLO_wire_corrupted 0 \<le> length HELLO_wire_corrupted
   \<and> 37 \<le> length (binaryFrame_of HELLO_wire_corrupted)
   \<and> decodeFrame HELLO_wire_corrupted = Inl HASH_VALIDATION_FAILURE
   \<and> decodeFrame HELLO_wire =
         Inr \<lparr>cmd = 1, nonce = 0, payload = [], hash = HELLO_digest, isValid = True\<rparr>"
proof -
  have l: "readUInt16BE HELLO_wire_corrupted 0 = 52" "readUInt16BE HELLO_wire 0 = 52"
    "length HELLO_wire_corrupted = 54" "length HELLO_wire = 54"
    by (simp_all add: HELLO_wire_corrupted_def HELLO_wire_def readUInt16BE_def)
  have h: "spec_hash_input 1 0 [] = [1, 0, 0, 0, 0]" "length HELLO_digest = 32"
    "butlast HELLO_digest @ [216] \<noteq> HELLO_digest"
    by (simp_all add: spec_hash_input_def HELLO_digest_def)
  show ?thesis
    using decodeFrame_hash_check [of HELLO_wire_corrupted] decodeFrame_hash_check [of HELLO_wire]
    by (simp add: l h binaryFrame_of_HELLO_wire binaryFrame_of_HELLO_wire_corrupted
        readUInt8_def readUInt32BE_def sha256_HELLO Let_def)
qed

text \<open>
  Claim C8. A buffer of fewer than two bytes, and a buffer whose length prefix declares more
  bytes than follow it, make \<open>decodeFrame\<close> fail with \<open>MALFORMED_FRAME\<close>.
\<close>

theorem decodeFrame_truncated:
  "length fd < 2 \<or> (2 \<le> length fd \<and> length fd - 2 < readUInt16BE fd 0)
     \<Longrightarrow> decodeFrame fd = Inl MALFORMED_FRAME"
  by (auto simp: decodeFrame_structure)

theorem decodeFrame_truncated_witness:
  "(length [0, 4, 65, 66 :: byte] < 2
      \<or> (2 \<le> length [0, 4, 65, 66 :: byte]
          \<and> length [0, 4, 65, 66 :: byte] - 2 < readUInt16BE [0, 4, 65, 66] 0))
   \<and> decodeFrame [0, 4, 65, 66] = Inl MALFORMED_FRAME"
  using decodeFrame_truncated [of "[0, 4, 65, 66]"] by (simp add: readUInt16BE_def)

text \<open>
  Claim C9, as amended. \<open>decodeFrame\<close> never fails with \<open>INVALID_BASE64\<close>: the decoder does
  not throw, and a region that decodes to fewer than 37 bytes -- which is what a region without
  any Base64 character does -- fails with \<open>MALFORMED_FRAME\<close>.
\<close>

theorem decodeFrame_small_binary_frame:
  "decodeFrame fd \<noteq> Inl INVALID_BASE64
   \<and> (2 \<le> length fd \<and> 2 + readUInt16BE fd 0 \<le> length fd \<and> length (binaryFrame_of fd) < 37
        \<longrightarrow> decodeFrame fd = Inl MALFORMED_FRAME)"
  by (auto simp: decodeFrame_structure binaryFrame_of_eq Let_def)

text \<open>
  Claim C9 as stated fails on the test fixture: its region holds no Base64 character, decodes
  to the empty buffer without an error, and the failure is \<open>MALFORMED_FRAME\<close>.
\<close>

theorem decodeFrame_invalid_base64_counterexample:
  "Buffer_from_base64 (toString_ascii (subarray INVALID_BASE64_fixture LENGTH_PREFIX_SIZE
       (LENGTH_PREFIX_SIZE + readUInt16BE INVALID_BASE64_fixture 0))) = Some []
   \<and> decodeFrame INVALID_BASE64_fixture = Inl MALFORMED_FRAME
   \<and> decodeFrame INVALID_BASE64_fixture \<noteq> Inl INVALID_BASE64"
  using fixture_binary
  by (simp add: decodeFrame_structure binaryFrame_of_eq Buffer_from_base64_def subarray_def
      LENGTH_PREFIX_SIZE_def INVALID_BASE64_fixture_def readUInt16BE_def Let_def)

theorem decodeFrame_small_binary_frame_witness:
  "2 \<le> length INVALID_BASE64_fixture
   \<and> 2 + readUInt16BE INVALID_BASE64_fixture 0 \<le> length INVALID_BASE64_fixture
   \<and> length (binaryFrame_of INVALID_BASE64_fixture) < 37
   \<and> decodeFrame INVALID_BASE64_fixture = Inl MALFORMED_FRAME"
  using decodeFrame_small_binary_frame [of INVALID_BASE64_fixture] fixture_binary
  by (simp add: INVALID_BASE64_fixture_def readUInt16BE_def)

section \<open>Claims about the client\<close>

text \<open>
  Claim C7. Whatever happens to the client, the nonce counter is 0 after the connect callback,
  two more after a command that wrote its frame to the socket, and unchanged after anything
  else -- in particular after incoming data, whatever the answer says. So it never decreases
  except when a connection is established.
\<close>

theorem nonce_counter:
  "currentNonce (step op c) =
     (if op = Op_on_connect then 0
      else if is_send op \<and> written (step op c) \<noteq> written c then currentNonce c + 2
      else currentNonce c)
   \<and> (op \<noteq> Op_on_connect \<longrightarrow> currentNonce c \<le> currentNonce (step op c))"
proof (cases op)
  case Op_sendHello
  then show ?thesis
    by (auto simp: sendHello_def sendFrameAndWaitForResponse_def Let_def settle_all_def emit_def
        split: sum.splits)
next
  case Op_sendDump
  then show ?thesis
    by (auto simp: sendDump_def sendFrameAndWaitForResponse_def Let_def settle_all_def emit_def
        split: sum.splits)
next
  case Op_sendStop
  then show ?thesis
    by (auto simp: sendStop_def sendFrameAndWaitForResponse_def Let_def settle_all_def emit_def
        split: sum.splits)
next
  case (Op_on_data d)
  then show ?thesis by (simp add: handleIncomingData_def currentNonce_processFrames)
qed (simp_all add: connect_def on_connect_def on_close_def on_socket_error_def on_timeout_def
       disconnect_def emit_def emit_disconnected_def reject_all_def settle_all_def
       currentNonce_emit_error)

theorem nonce_counter_witness:
  "currentNonce (step Op_on_connect pipelined) = 0
   \<and> currentNonce (step Op_sendDump after_hello) = currentNonce after_hello + 2
   \<and> currentNonce (step (Op_on_data (wire DUMP_FAILED 3)) pipelined) = currentNonce pipelined
   \<and> currentNonce pipelined \<le> currentNonce (step Op_disconnect pipelined)"
proof -
  have "step Op_sendDump after_hello = pipelined"
    by (simp add: pipelined_def run_def)
  then have "written (step Op_sendDump after_hello) \<noteq> written after_hello"
    by (simp add: pipelined_eq after_hello_eq)
  then show ?thesis
    using nonce_counter [of Op_on_connect pipelined] nonce_counter [of Op_sendDump after_hello]
      nonce_counter [of "Op_on_data (wire DUMP_FAILED 3)" pipelined]
      nonce_counter [of Op_disconnect pipelined]
    by simp
qed

text \<open>
  Claim C10. On a connected client that has sent nothing yet, \<open>sendDump\<close> fails with
  \<open>HelloRequired\<close>; \<open>sendStop\<close> is accepted, writes its frame and sets the last-command marker;
  a \<open>sendDump\<close> right after it is accepted and written in turn, and on the same connection --
  whatever happens short of a new connect callback -- \<open>sendDump\<close> never fails with
  \<open>HelloRequired\<close> again, although HELLO was never sent.
\<close>

theorem stop_unlocks_dump:
  assumes "isConnected c" "socket c" "lastCommand c = None"
    and "0 \<le> currentNonce c" "currentNonce c \<le> 4294967293"
  shows "snd (sendDump c) = Inl HelloRequired
    \<and> snd (sendStop c) = Inr (nextExchange c)
    \<and> written (fst (sendStop c)) = written c @ [wire STOP_CMD_code (currentNonce c)]
    \<and> lastCommand (fst (sendStop c)) = Some STOP_CMD
    \<and> snd (sendDump (fst (sendStop c))) = Inr (nextExchange c + 1)
    \<and> written (fst (sendDump (fst (sendStop c))))
        = written c @ [wire STOP_CMD_code (currentNonce c), wire DUMP_code (currentNonce c + 2)]
    \<and> (\<forall>ops. Op_on_connect \<notin> set ops \<longrightarrow>
          snd (sendDump (run ops (fst (sendStop c)))) \<noteq> Inl HelloRequired)"
proof -
  define c1 where "c1 = fst (sendStop c)"
  have s: "sendStop c =
      (c\<lparr>lastCommand := Some STOP_CMD,
         emitted := emitted c @ [Ev_frameTransmitted_request STOP_CMD (currentNonce c)],
         exchanges := exchanges c
           @ [\<lparr>exchangeId = nextExchange c, sentNonce = currentNonce c, expectedCodes = [STOP_OK]\<rparr>],
         nextExchange := nextExchange c + 1,
         written := written c @ [wire STOP_CMD_code (currentNonce c)],
         currentNonce := currentNonce c + 2\<rparr>, Inr (nextExchange c))"
    using assms
    by (simp add: sendStop_connected sendFrameAndWaitForResponse_def emit_def Let_def)
  have c1: "isConnected c1" "socket c1" "lastCommand c1 = Some STOP_CMD"
    "currentNonce c1 = currentNonce c + 2" "nextExchange c1 = nextExchange c + 1"
    "written c1 = written c @ [wire STOP_CMD_code (currentNonce c)]"
    using assms by (simp_all add: c1_def s)
  have d: "snd (sendDump c1) = Inr (nextExchange c + 1)"
    "written (fst (sendDump c1))
        = written c @ [wire STOP_CMD_code (currentNonce c), wire DUMP_code (currentNonce c + 2)]"
    using assms c1
    by (simp_all add: sendDump_connected sendFrameAndWaitForResponse_def emit_def Let_def)
  have e: "snd (sendDump (run ops c1)) \<noteq> Inl HelloRequired" if "Op_on_connect \<notin> set ops" for ops
    using lastCommand_run [OF that, of c1] c1(3)
    by (auto simp: sendDump_def sendFrameAndWaitForResponse_def Let_def split: sum.splits
        dest: encodeFrame_Inl)
  have a: "snd (sendDump c) = Inl HelloRequired"
    using assms by (simp add: sendDump_def)
  have b: "snd (sendStop c) = Inr (nextExchange c)"
    by (simp add: s)
  from a b c1(6) c1(3) d e show ?thesis
    unfolding c1_def by blast
qed

theorem stop_unlocks_dump_witness:
  "isConnected connected \<and> socket connected \<and> lastCommand connected = None
   \<and> snd (sendDump connected) = Inl HelloRequired
   \<and> lastCommand (fst (sendStop connected)) = Some STOP_CMD
   \<and> written (fst (sendDump (fst (sendStop connected))))
        = [wire STOP_CMD_code 0, wire DUMP_code 2]
   \<and> snd (sendDump (run [Op_on_data (wire STOP_OK 1)] (fst (sendStop connected))))
        \<noteq> Inl HelloRequired"
proof -
  have "Op_on_connect \<notin> set [Op_on_data (wire STOP_OK 1)]" by simp
  then show ?thesis
    using stop_unlocks_dump [of connected] by (simp add: connected_eq)
qed

text \<open>
  Claim C4 (a protocol violation tears the connection down). The code only emits the error and
  returns. After the answer with nonce 999, and likewise after the corrupted frame, the error
  is emitted and the pending HELLO is rejected, but the client is still connected, its socket is
  still there, and a \<open>sendDump\<close> that follows is accepted and written to the same socket.
\<close>

theorem violation_leaves_client_connected:
  "errors_emitted (emitted after_wrong_nonce) = [INVALID_NONCE]
   \<and> isConnected after_wrong_nonce \<and> socket after_wrong_nonce
   \<and> snd (sendDump after_wrong_nonce) = Inr 1
   \<and> written (fst (sendDump after_wrong_nonce)) = [HELLO_wire, wire DUMP_code 2]
   \<and> errors_emitted (emitted after_corrupted) = [HASH_VALIDATION_FAILURE]
   \<and> isConnected after_corrupted \<and> socket after_corrupted
   \<and> snd (sendDump after_corrupted) = Inr 1
   \<and> written (fst (sendDump after_corrupted)) = [HELLO_wire, wire DUMP_code 2]"
  by (simp add: after_wrong_nonce_eq after_corrupted_eq after_hello_eq sendDump_connected
      sendFrameAndWaitForResponse_def emit_def Let_def)

text \<open>
  Claim C5, as amended. The client has no check for an outstanding exchange: on a connected
  client that has its socket, whose nonce counter is a 32-bit value and which has exchanges
  pending, each of the three commands is accepted (\<open>sendDump\<close> as long as some command was
  sent before), writes its frame at the current nonce, registers one more exchange behind the
  pending ones, settles nothing and advances the nonce counter by 2.
\<close>

theorem second_command_is_sent:
  assumes "isConnected c" "socket c" "exchanges c \<noteq> []"
    and "0 \<le> currentNonce c" "currentNonce c \<le> 4294967295"
  shows "snd (sendHello c) = Inr (nextExchange c)
    \<and> written (fst (sendHello c)) = written c @ [wire HELLO_code (currentNonce c)]
    \<and> exchanges (fst (sendHello c)) = exchanges c
         @ [\<lparr>exchangeId = nextExchange c, sentNonce = currentNonce c, expectedCodes = [HELLO_ACK]\<rparr>]
    \<and> settled (fst (sendHello c)) = settled c
    \<and> currentNonce (fst (sendHello c)) = currentNonce c + 2
    \<and> snd (sendStop c) = Inr (nextExchange c)
    \<and> written (fst (sendStop c)) = written c @ [wire STOP_CMD_code (currentNonce c)]
    \<and> exchanges (fst (sendStop c)) = exchanges c
         @ [\<lparr>exchangeId = nextExchange c, sentNonce = currentNonce c, expectedCodes = [STOP_OK]\<rparr>]
    \<and> settled (fst (sendStop c)) = settled c
    \<and> currentNonce (fst (sendStop c)) = currentNonce c + 2
    \<and> (lastCommand c \<noteq> None \<longrightarrow>
          snd (sendDump c) = Inr (nextExchange c)
          \<and> written (fst (sendDump c)) = written c @ [wire DUMP_code (currentNonce c)]
          \<and> exchanges (fst (sendDump c)) = exchanges c
               @ [\<lparr>exchangeId = nextExchange c, sentNonce = currentNonce c,
                   expectedCodes = [DUMP_OK, DUMP_FAILED]\<rparr>]
          \<and> settled (fst (sendDump c)) = settled c
          \<and> currentNonce (fst (sendDump c)) = currentNonce c + 2)"
  using assms
  by (simp add: sendHello_connected sendStop_connected sendDump_connected
      sendFrameAndWaitForResponse_def emit_def Let_def del: not_None_eq)

theorem second_command_is_sent_witness:
  "isConnected after_hello \<and> socket after_hello \<and> exchanges after_hello \<noteq> []
   \<and> 0 \<le> currentNonce after_hello \<and> currentNonce after_hello \<le> 4294967295
   \<and> lastCommand after_hello \<noteq> None
   \<and> snd (sendDump after_hello) = Inr 1
   \<and> written (fst (sendHello after_hello)) = [HELLO_wire, wire HELLO_code 2]
   \<and> written (fst (sendStop after_hello)) = [HELLO_wire, wire STOP_CMD_code 2]
   \<and> written (fst (sendDump after_hello)) = [HELLO_wire, wire DUMP_code 2]
   \<and> currentNonce (fst (sendHello after_hello)) = 4
   \<and> currentNonce (fst (sendStop after_hello)) = 4
   \<and> currentNonce (fst (sendDump after_hello)) = 4"
  using second_command_is_sent [of after_hello]
  by (simp add: after_hello_eq)

text \<open>
  Claim C5 as stated fails: with the HELLO exchange outstanding, \<open>sendDump\<close> is not rejected and
  its frame is written.
\<close>

theorem second_command_counterexample:
  "exchanges after_hello \<noteq> []
   \<and> snd (sendDump after_hello) = Inr 1
   \<and> written (fst (sendDump after_hello)) = [HELLO_wire, wire DUMP_code 2]
   \<and> settled (fst (sendDump after_hello)) = []"
  by (simp add: after_hello_eq sendDump_connected sendFrameAndWaitForResponse_def emit_def
      Let_def)

text \<open>
  Claim C3, as amended. The loop compares the nonce of every decoded frame with
  \<open>currentNonce - 1\<close>, that is with \<open>N + 1\<close> for the nonce \<open>N\<close> of the command transmitted
  last. At any iteration of the loop with exchanges outstanding, a frame that decodes and
  carries another nonce makes the client emit \<open>INVALID_NONCE\<close>; every outstanding exchange is
  removed and rejected with it (unless its promise was settled already), and none is resolved
  with that frame.
\<close>

theorem unexpected_nonce_rejects:
  assumes "exchanges c \<noteq> []"
    and "incomingBuffer c = e @ rest" "getExpectedFrameLength e = Some (length e)"
    and "decodeFrame e = Inr f" "nonce f \<noteq> currentNonce c - 1"
  shows "snd (processFrames c) = None
    \<and> emitted (fst (processFrames c)) = emitted c @ [Ev_error INVALID_NONCE]
    \<and> exchanges (fst (processFrames c)) = []
    \<and> settled (fst (processFrames c)) =
         add_settlements (settled c)
           (map (\<lambda>p. (exchangeId p, Rejected INVALID_NONCE)) (exchanges c))
    \<and> (\<forall>p \<in> set (exchanges c). exchangeId p \<in> fst ` set (settled (fst (processFrames c))))
    \<and> (\<forall>i. (i, Resolved f) \<in> set (settled (fst (processFrames c)))
            \<longrightarrow> (i, Resolved f) \<in> set (settled c))"
proof -
  have p: "processFrames c = emit_error INVALID_NONCE (c\<lparr>incomingBuffer := rest\<rparr>)"
    using assms by (simp add: processFrames_step [OF assms(2,3)])
  have q: "emit_error INVALID_NONCE (c\<lparr>incomingBuffer := rest\<rparr>) =
             (reject_all INVALID_NONCE (emit (Ev_error INVALID_NONCE) (c\<lparr>incomingBuffer := rest\<rparr>)),
              None)"
    using assms(1) by (intro emit_error_listening) simp
  define c' where "c' = fst (processFrames c)"
  have s: "settled c' =
      add_settlements (settled c) (map (\<lambda>p. (exchangeId p, Rejected INVALID_NONCE)) (exchanges c))"
    and e: "emitted c' = emitted c @ [Ev_error INVALID_NONCE]" and x: "exchanges c' = []"
    and t: "snd (processFrames c) = None"
    by (simp_all add: c'_def p q reject_all_def settle_all_def emit_def)
  have a: "exchangeId p \<in> fst ` set (settled c')" if "p \<in> set (exchanges c)" for p
    using that by (force simp: s add_settlements_ids)
  have b: "(i, Resolved f) \<in> set (settled c)" if "(i, Resolved f) \<in> set (settled c')" for i
    using that add_settlements_subset
      [of "settled c" "map (\<lambda>p. (exchangeId p, Rejected INVALID_NONCE)) (exchanges c)"]
    by (auto simp: s)
  from t e x s a b show ?thesis
    unfolding c'_def by blast
qed

theorem unexpected_nonce_rejects_witness:
  "exchanges after_hello \<noteq> []
   \<and> getExpectedFrameLength (wire HELLO_ACK 999) = Some (length (wire HELLO_ACK 999))
   \<and> decodeFrame (wire HELLO_ACK 999) = Inr (plain_frame HELLO_ACK 999)
   \<and> nonce (plain_frame HELLO_ACK 999) \<noteq> currentNonce after_hello - 1
   \<and> snd (handleIncomingData (wire HELLO_ACK 999) after_hello) = None
   \<and> errors_emitted (emitted (fst (handleIncomingData (wire HELLO_ACK 999) after_hello)))
        = [INVALID_NONCE]
   \<and> settled (fst (handleIncomingData (wire HELLO_ACK 999) after_hello))
        = [(0, Rejected INVALID_NONCE)]"
proof -
  have r: "(0::int) \<le> HELLO_ACK" "HELLO_ACK \<le> 255" "(0::int) \<le> 999" "(999::int) \<le> 4294967295"
    by (simp_all add: HELLO_ACK_def)
  note w = expected_length_wire [OF r] decodeFrame_wire [OF r]
  show ?thesis
    using unexpected_nonce_rejects [of "after_hello\<lparr>incomingBuffer := wire HELLO_ACK 999\<rparr>"
        "wire HELLO_ACK 999" "[]" "plain_frame HELLO_ACK 999"] w
    by (simp add: handleIncomingData_def after_hello_eq plain_frame_def)
qed

text \<open>
  Claim C3 as stated fails when two commands are outstanding: the HELLO exchange was sent with
  nonce 0, the frame carries nonce 3, no \<open>INVALID_NONCE\<close> is emitted and the HELLO exchange is
  resolved with that frame.
\<close>

theorem unexpected_nonce_counterexample:
  "map sentNonce (exchanges pipelined) = [0, 2]
   \<and> decodeFrame (wire HELLO_ACK 3) = Inr (plain_frame HELLO_ACK 3)
   \<and> nonce (plain_frame HELLO_ACK 3) = 3
   \<and> snd (handleIncomingData (wire HELLO_ACK 3) pipelined) = None
   \<and> errors_emitted (emitted (fst (handleIncomingData (wire HELLO_ACK 3) pipelined))) = []
   \<and> settled (fst (handleIncomingData (wire HELLO_ACK 3) pipelined))
        = [(0, Resolved (plain_frame HELLO_ACK 3))]"
proof -
  have r: "(0::int) \<le> HELLO_ACK" "HELLO_ACK \<le> 255" "(0::int) \<le> 3" "(3::int) \<le> 4294967295"
    by (simp_all add: HELLO_ACK_def)
  note w = expected_length_wire [OF r] decodeFrame_wire [OF r]
  have "handleIncomingData (wire HELLO_ACK 3 @ []) pipelined =
          processFrames (deliver (plain_frame HELLO_ACK 3) (pipelined\<lparr>incomingBuffer := []\<rparr>))"
    by (subst handle_envelope) (simp_all add: w pipelined_eq plain_frame_def)
  also have "\<dots> = (deliver (plain_frame HELLO_ACK 3) (pipelined\<lparr>incomingBuffer := []\<rparr>), None)"
    by (rule processFrames_stall) (simp add: deliver_fields)
  finally show ?thesis
    by (simp add: w)
       (simp add: pipelined_eq deliver_def emit_frameReceived_def emit_def settle_all_def
          plain_frame_def HELLO_ACK_def DUMP_OK_def DUMP_FAILED_def)
qed

text \<open>
  Claim C6, as amended. As long as no error is raised, what the client does with the incoming
  bytes depends on their concatenation only: chunks fed one after the other without an error
  leave the client, and the events it has emitted, as their concatenation fed at once does; and
  if a chunk \<open>a\<close> raised no error, feeding \<open>b\<close> after it does what feeding \<open>a @ b\<close> at once
  does. On an empty buffer, an envelope that decodes and carries the expected nonce, cut
  anywhere into two chunks, yields exactly its one frame, as it does in one piece; and two such
  envelopes in one chunk yield exactly their two frames, in wire order.
\<close>

theorem stream_reassembly:
  "(quiet_run (d # ds) c
     \<longrightarrow> run (map Op_on_data (d # ds)) c = fst (handleIncomingData (concat (d # ds)) c))
   \<and> (snd (handleIncomingData a c) = None
      \<and> errors_emitted (emitted (fst (handleIncomingData a c))) = errors_emitted (emitted c)
     \<longrightarrow> handleIncomingData b (fst (handleIncomingData a c)) = handleIncomingData (a @ b) c)
   \<and> (incomingBuffer c = [] \<and> expected_envelope c e1 f1 \<and> e1 = a1 @ b1
     \<longrightarrow> handleIncomingData b1 (fst (handleIncomingData a1 c)) = handleIncomingData e1 c
         \<and> snd (handleIncomingData e1 c) = None
         \<and> incomingBuffer (fst (handleIncomingData e1 c)) = []
         \<and> frames_received (emitted (fst (handleIncomingData e1 c)))
             = frames_received (emitted c) @ [f1])
   \<and> (incomingBuffer c = [] \<and> expected_envelope c e1 f1 \<and> expected_envelope c e2 f2
     \<longrightarrow> snd (handleIncomingData (e1 @ e2) c) = None
         \<and> incomingBuffer (fst (handleIncomingData (e1 @ e2) c)) = []
         \<and> frames_received (emitted (fst (handleIncomingData (e1 @ e2) c)))
             = frames_received (emitted c) @ [f1, f2])"
proof (intro conjI impI)
  assume "quiet_run (d # ds) c"
  then show "run (map Op_on_data (d # ds)) c = fst (handleIncomingData (concat (d # ds)) c)"
    by (rule run_chunks)
next
  assume "snd (handleIncomingData a c) = None
      \<and> errors_emitted (emitted (fst (handleIncomingData a c))) = errors_emitted (emitted c)"
  then show "handleIncomingData b (fst (handleIncomingData a c)) = handleIncomingData (a @ b) c"
    by (intro handle_chunks) simp_all
next
  assume "incomingBuffer c = [] \<and> expected_envelope c e1 f1 \<and> e1 = a1 @ b1"
  then have buf: "incomingBuffer c = []" and env: "expected_envelope c e1 f1"
    and e1: "e1 = a1 @ b1" by blast+
  have whole: "handleIncomingData e1 c = (deliver f1 c, None)"
    by (rule handle_expected_envelope [OF buf env])
  show "snd (handleIncomingData e1 c) = None"
    "incomingBuffer (fst (handleIncomingData e1 c)) = []"
    "frames_received (emitted (fst (handleIncomingData e1 c))) = frames_received (emitted c) @ [f1]"
    using buf by (simp_all add: whole deliver_fields frames_received_append)
  have quiet: "snd (handleIncomingData a1 c) = None
      \<and> errors_emitted (emitted (fst (handleIncomingData a1 c))) = errors_emitted (emitted c)"
  proof (cases "b1 = []")
    case True
    then have "handleIncomingData a1 c = (deliver f1 c, None)"
      using whole e1 by simp
    then show ?thesis by (simp add: errors_emitted_deliver)
  next
    case False
    have "getExpectedFrameLength (a1 @ b1) = Some (length (a1 @ b1))"
      using env unfolding e1 by (simp add: expected_envelope_def)
    then have "handleIncomingData a1 c = (c\<lparr>incomingBuffer := a1\<rparr>, None)"
      by (rule handle_proper_prefix [OF buf _ False])
    then show ?thesis by simp
  qed
  then have "handleIncomingData b1 (fst (handleIncomingData a1 c)) = handleIncomingData (a1 @ b1) c"
    by (intro handle_chunks) simp_all
  then show "handleIncomingData b1 (fst (handleIncomingData a1 c)) = handleIncomingData e1 c"
    by (simp only: e1)
next
  assume "incomingBuffer c = [] \<and> expected_envelope c e1 f1 \<and> expected_envelope c e2 f2"
  then have buf: "incomingBuffer c = []" and env: "expected_envelope c e1 f1"
    "expected_envelope c e2 f2" by blast+
  have two: "handleIncomingData (e1 @ e2) c = (deliver f2 (deliver f1 c), None)"
    by (rule handle_two_envelopes [OF buf env])
  show "snd (handleIncomingData (e1 @ e2) c) = None"
    "incomingBuffer (fst (handleIncomingData (e1 @ e2) c)) = []"
    "frames_received (emitted (fst (handleIncomingData (e1 @ e2) c)))
       = frames_received (emitted c) @ [f1, f2]"
    using buf by (simp_all add: two deliver_fields frames_received_append)
qed

theorem stream_reassembly_witness:
  "incomingBuffer after_hello = []
   \<and> expected_envelope after_hello (wire HELLO_ACK 1) (plain_frame HELLO_ACK 1)
   \<and> expected_envelope after_hello (wire DUMP_FAILED 1) (plain_frame DUMP_FAILED 1)
   \<and> quiet_run [take 20 (wire HELLO_ACK 1), drop 20 (wire HELLO_ACK 1)] after_hello
   \<and> run (map Op_on_data [take 20 (wire HELLO_ACK 1), drop 20 (wire HELLO_ACK 1)]) after_hello
        = fst (handleIncomingData (wire HELLO_ACK 1) after_hello)
   \<and> handleIncomingData (drop 20 (wire HELLO_ACK 1))
        (fst (handleIncomingData (take 20 (wire HELLO_ACK 1)) after_hello))
        = handleIncomingData (wire HELLO_ACK 1) after_hello
   \<and> frames_received (emitted (fst (handleIncomingData (wire HELLO_ACK 1) after_hello)))
        = [plain_frame HELLO_ACK 1]
   \<and> frames_received (emitted (fst (handleIncomingData (wire HELLO_ACK 1 @ wire DUMP_FAILED 1)
          after_hello)))
        = [plain_frame HELLO_ACK 1, plain_frame DUMP_FAILED 1]"
proof -
  have b: "incomingBuffer after_hello = []" and n: "currentNonce after_hello - 1 = 1"
    and fr: "frames_received (emitted after_hello) = []"
    by (simp_all add: after_hello_eq)
  have e1: "expected_envelope after_hello (wire HELLO_ACK 1) (plain_frame HELLO_ACK 1)"
    and e2: "expected_envelope after_hello (wire DUMP_FAILED 1) (plain_frame DUMP_FAILED 1)"
    by (rule expected_envelope_wire; simp add: n HELLO_ACK_def DUMP_FAILED_def)+
  have l: "length (wire HELLO_ACK 1) = 54"
    by (rule length_wire) (simp_all add: HELLO_ACK_def)
  then have ne: "drop 20 (wire HELLO_ACK 1) \<noteq> []" by simp
  have sp: "wire HELLO_ACK 1 = take 20 (wire HELLO_ACK 1) @ drop 20 (wire HELLO_ACK 1)"
    by simp
  have "getExpectedFrameLength (take 20 (wire HELLO_ACK 1) @ drop 20 (wire HELLO_ACK 1))
          = Some (length (take 20 (wire HELLO_ACK 1) @ drop 20 (wire HELLO_ACK 1)))"
    using e1 by (simp add: expected_envelope_def)
  from handle_proper_prefix [OF b this ne]
  have q: "handleIncomingData (take 20 (wire HELLO_ACK 1)) after_hello
             = (after_hello\<lparr>incomingBuffer := take 20 (wire HELLO_ACK 1)\<rparr>, None)" .
  have whole: "handleIncomingData (wire HELLO_ACK 1) after_hello
                 = (deliver (plain_frame HELLO_ACK 1) after_hello, None)"
    by (rule handle_expected_envelope [OF b e1])
  have "handleIncomingData (drop 20 (wire HELLO_ACK 1))
          (fst (handleIncomingData (take 20 (wire HELLO_ACK 1)) after_hello))
        = handleIncomingData (take 20 (wire HELLO_ACK 1) @ drop 20 (wire HELLO_ACK 1)) after_hello"
    by (rule handle_chunks) (simp_all add: q)
  then have second: "handleIncomingData (drop 20 (wire HELLO_ACK 1))
          (after_hello\<lparr>incomingBuffer := take 20 (wire HELLO_ACK 1)\<rparr>)
        = (deliver (plain_frame HELLO_ACK 1) after_hello, None)"
    by (simp add: q whole)
  have quiet: "quiet_run [take 20 (wire HELLO_ACK 1), drop 20 (wire HELLO_ACK 1)] after_hello"
    by (simp add: q second errors_emitted_deliver)
  show ?thesis
    using stream_reassembly [of "take 20 (wire HELLO_ACK 1)" "[drop 20 (wire HELLO_ACK 1)]"
        after_hello "take 20 (wire HELLO_ACK 1)" "drop 20 (wire HELLO_ACK 1)"
        "wire HELLO_ACK 1" "plain_frame HELLO_ACK 1"
        "take 20 (wire HELLO_ACK 1)" "drop 20 (wire HELLO_ACK 1)"
        "wire DUMP_FAILED 1" "plain_frame DUMP_FAILED 1"] b e1 e2 sp quiet
    by (simp add: q fr)
qed

text \<open>
  Claim C6 as stated fails, because the loop that cuts the stream into envelopes also checks
  the nonce: the answers to HELLO (nonce 1) and to a DUMP (nonce 3) are both valid envelopes,
  but arriving in one chunk while the client waits for nonce 1 they yield the first frame only,
  and \<open>INVALID_NONCE\<close> for the second.
\<close>

theorem stream_reassembly_counterexample:
  "decodeFrame (wire HELLO_ACK 1) = Inr (plain_frame HELLO_ACK 1)
   \<and> decodeFrame (wire DUMP_FAILED 3) = Inr (plain_frame DUMP_FAILED 3)
   \<and> frames_received (emitted (fst (handleIncomingData (wire HELLO_ACK 1 @ wire DUMP_FAILED 3)
          after_hello)))
        = [plain_frame HELLO_ACK 1]
   \<and> errors_emitted (emitted (fst (handleIncomingData (wire HELLO_ACK 1 @ wire DUMP_FAILED 3)
          after_hello)))
        = [INVALID_NONCE]"
proof -
  have r1: "(0::int) \<le> HELLO_ACK" "HELLO_ACK \<le> 255" "(0::int) \<le> 1" "(1::int) \<le> 4294967295"
    and r2: "(0::int) \<le> DUMP_FAILED" "DUMP_FAILED \<le> 255" "(0::int) \<le> 3" "(3::int) \<le> 4294967295"
    by (simp_all add: HELLO_ACK_def DUMP_FAILED_def)
  note w1 = expected_length_wire [OF r1] decodeFrame_wire [OF r1]
  note w2 = expected_length_wire [OF r2] decodeFrame_wire [OF r2]
  define c1 where "c1 = deliver (plain_frame HELLO_ACK 1) after_hello"
  have c1: "currentNonce c1 = 2" "errorListener c1"
    "emitted c1 = emitted after_hello
       @ [Ev_frameTransmitted_response (RESPONSE_NAMES HELLO_ACK) 1 [],
          Ev_frameReceived (plain_frame HELLO_ACK 1)]"
    by (simp_all add: c1_def deliver_fields after_hello_eq plain_frame_def)
  have "handleIncomingData (wire HELLO_ACK 1 @ wire DUMP_FAILED 3) after_hello
          = processFrames (deliver (plain_frame HELLO_ACK 1)
              (after_hello\<lparr>incomingBuffer := wire DUMP_FAILED 3\<rparr>))"
    by (subst handle_envelope) (simp_all add: w1 after_hello_eq plain_frame_def)
  also have "deliver (plain_frame HELLO_ACK 1) (after_hello\<lparr>incomingBuffer := wire DUMP_FAILED 3\<rparr>)
          = c1\<lparr>incomingBuffer := wire DUMP_FAILED 3\<rparr>"
    by (simp add: c1_def deliver_incomingBuffer_update)
  also have "processFrames (c1\<lparr>incomingBuffer := wire DUMP_FAILED 3\<rparr>)
          = emit_error INVALID_NONCE (c1\<lparr>incomingBuffer := wire DUMP_FAILED 3, incomingBuffer := []\<rparr>)"
    by (subst processFrames_step [where e = "wire DUMP_FAILED 3" and rest = "[]"])
       (simp_all add: w2 c1 plain_frame_def)
  also have "\<dots> = (reject_all INVALID_NONCE
                      (emit (Ev_error INVALID_NONCE) (c1\<lparr>incomingBuffer := []\<rparr>)), None)"
    using c1(2) by (simp add: emit_error_def)
  finally show ?thesis
    by (simp add: w1 w2)
       (simp add: reject_all_def settle_all_def emit_def c1 after_hello_eq)
qed

end
